theory Spec2Isabelle
  imports Main "HOL-Library.Word"
begin

unbundle bit_operations_syntax

chapter \<open>Contiguous frame pool and virtual-memory pool of the x86 kernel\<close>

text \<open>
  A shallow embedding of \<^verbatim>\<open>cont_frame_pool.C\<close> and \<^verbatim>\<open>vm_pool.C\<close>.
  The kernel is built for 32-bit x86: \<^verbatim>\<open>unsigned long\<close> and \<^verbatim>\<open>unsigned int\<close> are
  32-bit words, \<^verbatim>\<open>unsigned char\<close> is a byte, and all arithmetic on them wraps around.
  A failed \<^verbatim>\<open>assert\<close> halts the kernel; it is the value \<open>Inl Assertion_failed\<close>.
\<close>

section \<open>Machine types\<close>

type_synonym ulong = "32 word"
type_synonym uint = "32 word"
type_synonym uchar = "8 word"

datatype fatal = Assertion_failed

section \<open>The frame bitmap: two bits per frame\<close>

datatype FrameState = Free | Used | HoS

text \<open>
  \<^verbatim>\<open>unsigned char mask = 0x1 << (position) | 0x1 << (position+1);\<close>
\<close>

definition frame_mask :: "ulong \<Rightarrow> uchar" where
  "frame_mask position = push_bit (unat position) 1 OR push_bit (unat (position + 1)) 1"

text \<open>
  \<^verbatim>\<open>mask = 0x1 << (position+1);\<close>, the mask of the upper bit alone, as
  \<^verbatim>\<open>set_state\<close> recomputes it for \<^verbatim>\<open>FrameState::HoS\<close>.
\<close>

definition hi_mask :: "ulong \<Rightarrow> uchar" where
  "hi_mask position = push_bit (unat (position + 1)) 1"

text \<open>
  The bitmap is the memory behind the pointer \<^verbatim>\<open>bitmap\<close>: a function from the byte
  index to the byte. \<^verbatim>\<open>get_state\<close> returns \<open>Free\<close> for the pattern 00, \<open>Used\<close>
  for 11, and \<open>HoS\<close> for anything else.
\<close>

definition get_state :: "(ulong \<Rightarrow> uchar) \<Rightarrow> ulong \<Rightarrow> FrameState" where
  "get_state bitmap frame_no =
     (let bitmap_index = frame_no div 4;
          position = 2 * (frame_no mod 4);
          mask = frame_mask position;
          result = bitmap bitmap_index AND mask
      in if result = 0 then Free
         else if result = mask then Used
         else HoS)"

definition set_state :: "(ulong \<Rightarrow> uchar) \<Rightarrow> ulong \<Rightarrow> FrameState \<Rightarrow> (ulong \<Rightarrow> uchar)" where
  "set_state bitmap frame_no state =
     (let bitmap_index = frame_no div 4;
          position = 2 * (frame_no mod 4);
          mask = frame_mask position
      in case state of
           Used \<Rightarrow> bitmap(bitmap_index := bitmap bitmap_index OR mask)
         | Free \<Rightarrow> bitmap(bitmap_index := bitmap bitmap_index AND NOT mask)
         | HoS \<Rightarrow>
             (let bitmap1 = bitmap(bitmap_index := bitmap bitmap_index AND NOT mask);
                  mask1 = hi_mask position
              in bitmap1(bitmap_index := bitmap1 bitmap_index OR mask1)))"

subsection \<open>Reading back what was written\<close>

lemma mod4_cases: "(f::ulong) mod 4 \<in> {0, 1, 2, 3}"
proof -
  have "unat (f mod 4) < 4" by (simp add: unat_mod)
  then have "unat (f mod 4) \<in> {0, 1, 2, 3}" by auto
  then show ?thesis by (auto simp: word_unat_eq_iff)
qed

lemma frame_mask_values:
  "frame_mask 0 = 3" "frame_mask 2 = 12" "frame_mask 4 = 48" "frame_mask 6 = 192"
  by (simp_all add: frame_mask_def)

lemma hi_mask_values:
  "hi_mask 0 = 2" "hi_mask 2 = 8" "hi_mask 4 = 32" "hi_mask 6 = 128"
  by (simp_all add: hi_mask_def)

lemma div_mod4_eq: "(f::ulong) div 4 = g div 4 \<Longrightarrow> f mod 4 = g mod 4 \<Longrightarrow> f = g"
  by (metis div_mult_mod_eq)

lemma and_or_disj: "m AND m' = 0 \<Longrightarrow> (b OR m) AND m' = b AND (m'::uchar)"
  by (simp add: bit.conj_disj_distrib2)

lemma and_not_disj: "m AND m' = 0 \<Longrightarrow> (b AND NOT m) AND m' = b AND (m'::uchar)"
  by (auto simp: bit_eq_iff bit_and_iff bit_not_iff)

lemma or_and_self: "(b OR m) AND m = (m::uchar)"
  by (auto simp: bit_eq_iff bit_and_iff bit_or_iff)

lemma not_and_self: "(b AND NOT m) AND m = (0::uchar)"
  by (auto simp: bit_eq_iff bit_and_iff bit_not_iff)

lemma hos_and_self: "h AND m = h \<Longrightarrow> ((b AND NOT m) OR h) AND m = (h::uchar)"
  by (simp add: bit.conj_disj_distrib2 not_and_self)

lemma masks_disjoint:
  assumes "(f::ulong) mod 4 \<noteq> g mod 4"
  shows "frame_mask (2 * (f mod 4)) AND frame_mask (2 * (g mod 4)) = 0"
proof -
  define m where "m = f mod 4"
  define k where "k = g mod 4"
  have "m \<in> {0, 1, 2, 3}" "k \<in> {0, 1, 2, 3}" unfolding m_def k_def by (rule mod4_cases)+
  moreover have "m \<noteq> k" using assms by (simp add: m_def k_def)
  ultimately have "frame_mask (2 * m) AND frame_mask (2 * k) = 0"
    by (auto simp: frame_mask_values)
  then show ?thesis by (simp only: m_def k_def)
qed

lemma hi_mask_sub:
  "hi_mask (2 * (f mod 4)) AND frame_mask (2 * (f mod 4)) = hi_mask (2 * (f mod 4))"
proof -
  define m where "m = f mod 4"
  have "m \<in> {0, 1, 2, 3}" unfolding m_def by (rule mod4_cases)
  then have "hi_mask (2 * m) AND frame_mask (2 * m) = hi_mask (2 * m)"
    by (auto simp: frame_mask_values hi_mask_values)
  then show ?thesis by (simp only: m_def)
qed

lemma hi_mask_neq:
  "hi_mask (2 * (f mod 4)) \<noteq> 0"
  "hi_mask (2 * (f mod 4)) \<noteq> frame_mask (2 * (f mod 4))"
proof -
  define m where "m = f mod 4"
  have "m \<in> {0, 1, 2, 3}" unfolding m_def by (rule mod4_cases)
  then have "hi_mask (2 * m) \<noteq> 0 \<and> hi_mask (2 * m) \<noteq> frame_mask (2 * m)"
    by (auto simp: frame_mask_values hi_mask_values)
  then show "hi_mask (2 * (f mod 4)) \<noteq> 0"
    "hi_mask (2 * (f mod 4)) \<noteq> frame_mask (2 * (f mod 4))"
    unfolding m_def by blast+
qed

lemma frame_mask_neq0: "frame_mask (2 * (f mod 4)) \<noteq> 0"
proof -
  define m where "m = f mod 4"
  have "m \<in> {0, 1, 2, 3}" unfolding m_def by (rule mod4_cases)
  then have "frame_mask (2 * m) \<noteq> 0"
    by (auto simp: frame_mask_values)
  then show ?thesis unfolding m_def by blast
qed

lemma hi_mask_disjoint:
  assumes "(f::ulong) mod 4 \<noteq> g mod 4"
  shows "hi_mask (2 * (f mod 4)) AND frame_mask (2 * (g mod 4)) = 0"
proof -
  have "hi_mask (2 * (f mod 4)) AND frame_mask (2 * (g mod 4))
        = (hi_mask (2 * (f mod 4)) AND frame_mask (2 * (f mod 4))) AND frame_mask (2 * (g mod 4))"
    by (simp only: hi_mask_sub)
  also have "\<dots> = hi_mask (2 * (f mod 4))
        AND (frame_mask (2 * (f mod 4)) AND frame_mask (2 * (g mod 4)))"
    by (simp only: and.assoc)
  finally show ?thesis by (simp only: masks_disjoint [OF assms] and_zero_eq)
qed

lemma get_state_set_state_same: "get_state (set_state bitmap f s) f = s"
proof (cases s)
  case Free
  then show ?thesis by (simp add: get_state_def set_state_def Let_def not_and_self)
next
  case Used
  then show ?thesis
    by (simp add: get_state_def set_state_def Let_def or_and_self frame_mask_neq0)
next
  case HoS
  then show ?thesis
    by (simp add: get_state_def set_state_def Let_def hos_and_self hi_mask_sub hi_mask_neq)
qed

lemma get_state_set_state_other:
  assumes "f \<noteq> g"
  shows "get_state (set_state bitmap f s) g = get_state bitmap g"
proof (cases "f div 4 = g div 4")
  case False
  then show ?thesis
    by (cases s) (simp_all add: get_state_def set_state_def Let_def)
next
  case True
  with assms have ne: "f mod 4 \<noteq> g mod 4" using div_mod4_eq by blast
  note d1 = masks_disjoint [OF ne] and d2 = hi_mask_disjoint [OF ne]
  show ?thesis
    using True
    by (cases s) (simp_all add: get_state_def set_state_def Let_def and_or_disj and_not_disj d1 d2)
qed

lemma get_state_set_state:
  "get_state (set_state bitmap f s) g = (if g = f then s else get_state bitmap g)"
  using get_state_set_state_same get_state_set_state_other by auto

section \<open>The contiguous frame pool\<close>

text \<open>
  The data members of \<^verbatim>\<open>class ContFramePool\<close>. The field \<open>bitmap\<close> is the content of
  the memory the pointer \<^verbatim>\<open>bitmap\<close> refers to, byte by byte; the pointer has no bound, so
  neither has the function. Every pool has a bitmap of its own here: two pools whose
  bitmaps share bytes, and other code that writes to the frame of a bitmap, are outside
  this model. The links \<^verbatim>\<open>next_pool\<close> of the static list are the order of the list of
  pools that stands for the registry (\<^verbatim>\<open>list_head\<close> first).
\<close>

record ContFramePool =
  base_frame_no :: ulong
  n_frames :: ulong
  n_free_frames :: ulong
  info_frame_no :: ulong
  bitmap :: "ulong \<Rightarrow> uchar"

lemma unat_inc: "(i::ulong) < e \<Longrightarrow> unat (i + 1) = Suc (unat i)"
  by unat_arith

text \<open>
  \<^verbatim>\<open>for(unsigned long fno = 0; fno < n_frames; fno++) set_state(fno, FrameState::Free);\<close>
\<close>

function init_free :: "(ulong \<Rightarrow> uchar) \<Rightarrow> ulong \<Rightarrow> ulong \<Rightarrow> (ulong \<Rightarrow> uchar)" where
  "init_free bm n fno =
     (if fno < n then init_free (set_state bm fno Free) n (fno + 1) else bm)"
  by pat_completeness auto
termination
  by (relation "measure (\<lambda>(bm, n, fno). unat n - unat fno)")
     (auto simp: unat_inc word_less_nat_alt)

text \<open>
  The constructor. \<open>FRAME_SIZE\<close> is the constant of \<^verbatim>\<open>cont_frame_pool.H\<close>, a parameter
  here; \<open>mem\<close> is the physical memory (address to byte) the kernel runs on, of which the
  pool keeps the part behind its pointer \<^verbatim>\<open>bitmap\<close>; \<open>pools\<close> is the static list,
  to whose tail the new pool is appended. The result is the new pool and the new list.
\<close>

definition new_ContFramePool ::
  "uint \<Rightarrow> (ulong \<Rightarrow> uchar) \<Rightarrow> ContFramePool list \<Rightarrow> ulong \<Rightarrow> ulong \<Rightarrow> ulong
     \<Rightarrow> fatal + (ContFramePool \<times> ContFramePool list)" where
  "new_ContFramePool FRAME_SIZE mem pools base_frame_no' n_frames' info_frame_no' =
     (if \<not> n_frames' \<le> FRAME_SIZE * 8 then Inl Assertion_failed
      else
        let bitmap_ptr =
              (if info_frame_no' = 0 then base_frame_no' * FRAME_SIZE
               else info_frame_no' * FRAME_SIZE);
            p = \<lparr>base_frame_no = base_frame_no', n_frames = n_frames',
                 n_free_frames = n_frames', info_frame_no = info_frame_no',
                 bitmap = (\<lambda>k. mem (bitmap_ptr + k))\<rparr>;
            p = p\<lparr>bitmap := init_free (bitmap p) (n_frames p) 0\<rparr>;
            p = (if info_frame_no p = 0
                 then p\<lparr>bitmap := set_state (bitmap p) 0 Used,
                        n_free_frames := n_free_frames p - 1\<rparr>
                 else p)
        in Inr (p, pools @ [p]))"

text \<open>
  The search loop of \<^verbatim>\<open>get_frames\<close>, from index \<open>i\<close> with \<open>count\<close> consecutive
  free frames seen: \<open>Some i\<close> is \<^verbatim>\<open>found=1\<close> with the loop left by \<^verbatim>\<open>break\<close> at \<open>i\<close>,
  \<open>None\<close> is \<^verbatim>\<open>found=0\<close>.
\<close>

function get_frames_search ::
  "(ulong \<Rightarrow> uchar) \<Rightarrow> ulong \<Rightarrow> uint \<Rightarrow> ulong \<Rightarrow> ulong \<Rightarrow> ulong option" where
  "get_frames_search bm nf n i count =
     (if i < nf then
        (let count' = (if get_state bm i = Free then count + 1 else 0)
         in if count' = n then Some i
            else get_frames_search bm nf n (i + 1) count')
      else None)"
  by pat_completeness auto
termination
  by (relation "measure (\<lambda>(bm, nf, n, i, count). unat nf - unat i)")
     (auto simp: unat_inc word_less_nat_alt)

text \<open>
  \<^verbatim>\<open>for(i=...; i<e; i++){ set_state(i, FrameState::Used); n_free_frames--; }\<close>,
  the loop that ends both \<^verbatim>\<open>get_frames\<close> and \<^verbatim>\<open>mark_inaccessible\<close>.
\<close>

function mark_used :: "ContFramePool \<Rightarrow> ulong \<Rightarrow> ulong \<Rightarrow> ContFramePool" where
  "mark_used p i e =
     (if i < e
      then mark_used (p\<lparr>bitmap := set_state (bitmap p) i Used,
                        n_free_frames := n_free_frames p - 1\<rparr>) (i + 1) e
      else p)"
  by pat_completeness auto
termination
  by (relation "measure (\<lambda>(p, i, e). unat e - unat i)")
     (auto simp: unat_inc word_less_nat_alt)

text \<open>
  \<^verbatim>\<open>get_frames\<close> returns the frame number and leaves the pool changed; the value 0 with
  the pool unchanged is "Continuous memory not found".
\<close>

definition get_frames :: "ContFramePool \<Rightarrow> uint \<Rightarrow> fatal + (ulong \<times> ContFramePool)" where
  "get_frames p n =
     (if \<not> n_free_frames p > 0 then Inl Assertion_failed
      else
        case get_frames_search (bitmap p) (n_frames p) n 0 0 of
          None \<Rightarrow> Inr (0, p)
        | Some i \<Rightarrow>
            (let start_frame = i - n + 1;
                 p = p\<lparr>bitmap := set_state (bitmap p) start_frame HoS,
                        n_free_frames := n_free_frames p - 1\<rparr>;
                 p = mark_used p (start_frame + 1) (start_frame + n)
             in Inr (start_frame + base_frame_no p, p)))"

text \<open>
  \<^verbatim>\<open>mark_inaccessible\<close> hands its argument \<^verbatim>\<open>_base_frame_no\<close> to \<^verbatim>\<open>set_state\<close> as it
  is, and counts down once for the first frame whatever \<^verbatim>\<open>_n_frames\<close> is.
\<close>

definition mark_inaccessible :: "ContFramePool \<Rightarrow> ulong \<Rightarrow> ulong \<Rightarrow> ContFramePool" where
  "mark_inaccessible p base_frame_no' n_frames' =
     (let p = p\<lparr>bitmap := set_state (bitmap p) base_frame_no' HoS,
                 n_free_frames := n_free_frames p - 1\<rparr>
      in mark_used p (base_frame_no' + 1) (base_frame_no' + n_frames'))"

text \<open>
  The first loop of \<^verbatim>\<open>release_frames\<close>: the position in the list of the first pool with
  \<^verbatim>\<open>base_frame_no <= f && f < base_frame_no + n_frames\<close>; \<open>None\<close> is \<^verbatim>\<open>curr_pool == NULL\<close>.
\<close>

fun find_pool :: "ContFramePool list \<Rightarrow> ulong \<Rightarrow> nat option" where
  "find_pool [] f = None"
| "find_pool (p # ps) f =
     (if base_frame_no p \<le> f \<and> f < base_frame_no p + n_frames p then Some 0
      else map_option Suc (find_pool ps f))"

lemma used_frames_shrink:
  assumes "get_state bm k = Used"
  shows "card {g. get_state (set_state bm k Free) g = Used} < card {g. get_state bm g = Used}"
proof -
  have "{g. get_state (set_state bm k Free) g = Used} = {g. get_state bm g = Used} - {k}"
    by (auto simp: get_state_set_state)
  moreover have "k \<in> {g. get_state bm g = Used}" using assms by simp
  moreover have "finite {g. get_state bm g = Used}" by simp
  ultimately show ?thesis by (simp only: card_Diff1_less)
qed

text \<open>
  The last loop of \<^verbatim>\<open>release_frames\<close>. It has no bound but the bitmap's content: it
  stops at the first frame that is not \<open>Used\<close>. Every round turns a \<open>Used\<close> frame
  \<open>Free\<close> and a 32-bit index has finitely many values, so it ends.
\<close>

function release_walk :: "ContFramePool \<Rightarrow> ulong \<Rightarrow> ContFramePool" where
  "release_walk p first_frame_no =
     (if get_state (bitmap p) (first_frame_no - base_frame_no p) = Used
      then release_walk
             (p\<lparr>bitmap := set_state (bitmap p) (first_frame_no - base_frame_no p) Free,
                n_free_frames := n_free_frames p + 1\<rparr>)
             (first_frame_no + 1)
      else p)"
  by pat_completeness auto
termination
  by (relation "measure (\<lambda>(p, f). card {g. get_state (bitmap p) g = Used})")
     (auto simp: used_frames_shrink)

text \<open>
  \<^verbatim>\<open>release_frames\<close> is static: it works on the list of pools. It returns nothing; what
  it reports is what it prints: "Pool not found", "First frame is not a head frame",
  or nothing when it releases.
\<close>

datatype release_report = Released | Pool_not_found | Not_head_frame

definition release_frames ::
  "ContFramePool list \<Rightarrow> ulong \<Rightarrow> release_report \<times> ContFramePool list" where
  "release_frames pools first_frame_no =
     (case find_pool pools first_frame_no of
        None \<Rightarrow> (Pool_not_found, pools)
      | Some k \<Rightarrow>
          (let curr_pool = pools ! k in
           if get_state (bitmap curr_pool) (first_frame_no - base_frame_no curr_pool) \<noteq> HoS
           then (Not_head_frame, pools)
           else
             let curr_pool = curr_pool
                   \<lparr>bitmap := set_state (bitmap curr_pool)
                                (first_frame_no - base_frame_no curr_pool) Free,
                    n_free_frames := n_free_frames curr_pool + 1\<rparr>;
                 curr_pool = release_walk curr_pool (first_frame_no + 1)
             in (Released, pools[k := curr_pool])))"

text \<open>
  \<^verbatim>\<open>needed_info_frames\<close>, with \<^verbatim>\<open>8*FRAME_SIZE/2\<close> two-bit entries to a frame.
\<close>

definition needed_info_frames :: "uint \<Rightarrow> ulong \<Rightarrow> ulong" where
  "needed_info_frames FRAME_SIZE n =
     (let max_bits_in_frame = 8 * FRAME_SIZE div 2
      in n div max_bits_in_frame + (if n mod max_bits_in_frame > 0 then 1 else 0))"

section \<open>The virtual-memory pool\<close>

text \<open>
  \<^verbatim>\<open>struct allocated_vm_region\<close> with its members \<^verbatim>\<open>_base_address\<close> and \<^verbatim>\<open>_size\<close>.
\<close>

record allocated_vm_region =
  region_base_address :: ulong
  region_size :: ulong

text \<open>
  What the pool asks of its page table, in the order of the calls:
  \<^verbatim>\<open>register_pool(this)\<close>, \<^verbatim>\<open>free_page(address)\<close> and \<^verbatim>\<open>load()\<close>. The page table is not
  part of these sources; the pool's effect on it is the list of calls it makes.
\<close>

datatype page_table_call = Register_pool | Free_page ulong | Load_page_table

text \<open>
  The data members of \<^verbatim>\<open>class VMPool\<close>: \<^verbatim>\<open>_base_address\<close>, \<^verbatim>\<open>_size\<close>,
  \<^verbatim>\<open>region_iterator\<close>, and the array behind the pointer \<^verbatim>\<open>allocated_region\<close>, a function
  from the index to the descriptor. The pointers \<^verbatim>\<open>_frame_pool\<close> and \<^verbatim>\<open>_page_table\<close> are
  only stored and called through; the calls are the list \<open>page_table\<close>.
\<close>

record VMPool =
  base_address :: ulong
  pool_size :: ulong
  region_iterator :: uint
  allocated_region :: "uint \<Rightarrow> allocated_vm_region"
  page_table :: "page_table_call list"

text \<open>
  The constructor; \<open>mem\<close> is what the memory at \<^verbatim>\<open>_base_address\<close> holds, read as an
  array of descriptors, and \<open>calls\<close> the calls the page table has received so far.
\<close>

definition new_VMPool ::
  "(uint \<Rightarrow> allocated_vm_region) \<Rightarrow> page_table_call list \<Rightarrow> ulong \<Rightarrow> ulong \<Rightarrow> VMPool" where
  "new_VMPool mem calls base_address' size' =
     \<lparr>base_address = base_address', pool_size = size', region_iterator = 0,
      allocated_region = mem, page_table = calls @ [Register_pool]\<rparr>"

text \<open>
  \<^verbatim>\<open>allocate\<close>; \<open>PAGE_SIZE\<close> is \<^verbatim>\<open>Machine::PAGE_SIZE\<close> and \<open>MAX_VM_REGIONS\<close> the
  capacity of the region table, both constants of headers and parameters here. The page
  size is not 0 in any build (it is 4096 on x86); the properties below take it so, since
  a division by 0 has a value in HOL. Both rejections end in \<^verbatim>\<open>assert(false)\<close>.
\<close>

definition allocate :: "uint \<Rightarrow> uint \<Rightarrow> VMPool \<Rightarrow> ulong \<Rightarrow> fatal + (ulong \<times> VMPool)" where
  "allocate PAGE_SIZE MAX_VM_REGIONS v size' =
     (if size' = 0 then Inl Assertion_failed
      else if region_iterator v = MAX_VM_REGIONS then Inl Assertion_failed
      else
        let n_pages_needed = size' div PAGE_SIZE;
            n_pages_needed =
              (if size' mod PAGE_SIZE > 0 then n_pages_needed + 1 else n_pages_needed);
            final_mem_size = n_pages_needed * PAGE_SIZE;
            r = allocated_region v;
            k = region_iterator v;
            r = (if k = 0
                 then r(k := (r k)\<lparr>region_base_address := base_address v\<rparr>)
                 else r(k := (r k)\<lparr>region_base_address :=
                        region_base_address (r (k - 1)) + region_size (r (k - 1))\<rparr>));
            r = r(k := (r k)\<lparr>region_size := final_mem_size\<rparr>);
            v = v\<lparr>allocated_region := r, region_iterator := k + 1\<rparr>
        in Inr (region_base_address (allocated_region v (region_iterator v - 1)), v))"

text \<open>
  The first loop of \<^verbatim>\<open>release\<close>: the index at which the search stops, which is
  \<^verbatim>\<open>region_iterator\<close> when no descriptor has the address.
\<close>

function release_find :: "(uint \<Rightarrow> allocated_vm_region) \<Rightarrow> uint \<Rightarrow> ulong \<Rightarrow> uint \<Rightarrow> uint" where
  "release_find r n start_address indx =
     (if indx < n then
        (if region_base_address (r indx) = start_address then indx
         else release_find r n start_address (indx + 1))
      else indx)"
  by pat_completeness auto
termination
  by (relation "measure (\<lambda>(r, n, a, indx). unat n - unat indx)")
     (auto simp: unat_inc word_less_nat_alt)

text \<open>
  \<^verbatim>\<open>for(unsigned int i=0;i<n_pages_allocated;i++) _page_table->free_page(base+i*PAGE_SIZE);\<close>
\<close>

function release_pages ::
  "uint \<Rightarrow> ulong \<Rightarrow> uint \<Rightarrow> uint \<Rightarrow> page_table_call list \<Rightarrow> page_table_call list" where
  "release_pages PAGE_SIZE base n_pages_allocated i calls =
     (if i < n_pages_allocated
      then release_pages PAGE_SIZE base n_pages_allocated (i + 1)
             (calls @ [Free_page (base + i * PAGE_SIZE)])
      else calls)"
  by pat_completeness auto
termination
  by (relation "measure (\<lambda>(P, b, n, i, calls). unat n - unat i)")
     (auto simp: unat_inc word_less_nat_alt)

text \<open>
  \<^verbatim>\<open>for(;indx<region_iterator;indx++) allocated_region[indx] = allocated_region[indx+1];\<close>
\<close>

function release_shift ::
  "(uint \<Rightarrow> allocated_vm_region) \<Rightarrow> uint \<Rightarrow> uint \<Rightarrow> (uint \<Rightarrow> allocated_vm_region)" where
  "release_shift r n indx =
     (if indx < n then release_shift (r(indx := r (indx + 1))) n (indx + 1) else r)"
  by pat_completeness auto
termination
  by (relation "measure (\<lambda>(r, n, indx). unat n - unat indx)")
     (auto simp: unat_inc word_less_nat_alt)

definition release :: "uint \<Rightarrow> VMPool \<Rightarrow> ulong \<Rightarrow> VMPool" where
  "release PAGE_SIZE v start_address =
     (let indx = release_find (allocated_region v) (region_iterator v) start_address 0;
          n_pages_allocated = region_size (allocated_region v indx) div PAGE_SIZE;
          calls = release_pages PAGE_SIZE (region_base_address (allocated_region v indx))
                    n_pages_allocated 0 (page_table v);
          r = release_shift (allocated_region v) (region_iterator v) indx
      in v\<lparr>allocated_region := r, region_iterator := region_iterator v - 1,
            page_table := calls @ [Load_page_table]\<rparr>)"

definition is_legitimate :: "VMPool \<Rightarrow> ulong \<Rightarrow> bool" where
  "is_legitimate v address =
     (let last_address = base_address v + pool_size v
      in if address \<ge> base_address v \<and> address \<le> last_address then True else False)"

section \<open>Vocabulary of the properties\<close>

text \<open>
  \<open>all_state bm st s k\<close>: the \<open>k\<close> frames from index \<open>s\<close> on all have state \<open>st\<close>.
\<close>

fun all_state :: "(ulong \<Rightarrow> uchar) \<Rightarrow> FrameState \<Rightarrow> ulong \<Rightarrow> nat \<Rightarrow> bool" where
  "all_state bm st s 0 = True"
| "all_state bm st s (Suc k) = (get_state bm s = st \<and> all_state bm st (s + 1) k)"

text \<open>
  A run of \<open>n\<close> consecutive \<open>Free\<close> frames of the pool, starting at index \<open>s\<close>.
\<close>

definition free_run :: "ContFramePool \<Rightarrow> ulong \<Rightarrow> uint \<Rightarrow> bool" where
  "free_run p s n \<longleftrightarrow>
     unat s + unat n \<le> unat (n_frames p) \<and> all_state (bitmap p) Free s (unat n)"

text \<open>
  The pool of eight frames from frame 512 on that keeps its bitmap in its own first
  frame: frame 0 is \<open>Used\<close>, the seven others are \<open>Free\<close>.
\<close>

definition pool8 :: ContFramePool where
  "pool8 = \<lparr>base_frame_no = 512, n_frames = 8, n_free_frames = 7, info_frame_no = 0,
            bitmap = (\<lambda>_. 0)(0 := 3)\<rparr>"

text \<open>
  The pool of the eight frames 0 to 7 whose bitmap lies outside, in frame 8: all
  eight frames are \<open>Free\<close>.
\<close>

definition pool8_external :: ContFramePool where
  "pool8_external = \<lparr>base_frame_no = 0, n_frames = 8, n_free_frames = 8, info_frame_no = 8,
            bitmap = (\<lambda>_. 0)\<rparr>"

text \<open>
  The test of \<^verbatim>\<open>release_frames\<close> for "the frame lies in the pool's range":
  \<^verbatim>\<open>base_frame_no <= f && f < base_frame_no + n_frames\<close>, in 32-bit arithmetic.
\<close>

definition in_range :: "ContFramePool \<Rightarrow> ulong \<Rightarrow> bool" where
  "in_range p f \<longleftrightarrow> base_frame_no p \<le> f \<and> f < base_frame_no p + n_frames p"

text \<open>
  The pool of eight frames from frame 512 on, with its bitmap in its own first frame, built
  on memory whose byte after the two bytes of the bitmap holds \<open>0xFF\<close>: the
  constructor writes the entries of its eight frames only.
\<close>

definition pool8_dirty :: ContFramePool where
  "pool8_dirty = \<lparr>base_frame_no = 512, n_frames = 8, n_free_frames = 7, info_frame_no = 0,
            bitmap = (\<lambda>_. 0)(0 := 3, 2 := 0xFF)\<rparr>"

text \<open>
  The number of frames with state \<open>st\<close> among the \<open>k\<close> frames from index \<open>s\<close> on.
\<close>

fun count_state :: "(ulong \<Rightarrow> uchar) \<Rightarrow> FrameState \<Rightarrow> ulong \<Rightarrow> nat \<Rightarrow> nat" where
  "count_state bm st s 0 = 0"
| "count_state bm st s (Suc k) =
     (if get_state bm s = st then 1 else 0) + count_state bm st (s + 1) k"

text \<open>
  The number of frames of the pool that the bitmap has \<open>Free\<close>.
\<close>

definition free_frames :: "ContFramePool \<Rightarrow> nat" where
  "free_frames p = count_state (bitmap p) Free 0 (unat (n_frames p))"

text \<open>
  A descriptor table that holds zeros, for pools that have just been constructed.
\<close>

definition no_regions :: "uint \<Rightarrow> allocated_vm_region" where
  "no_regions = (\<lambda>_. \<lparr>region_base_address = 0, region_size = 0\<rparr>)"

text \<open>
  The address \<^verbatim>\<open>allocate\<close> gives the next region: \<^verbatim>\<open>_base_address\<close> for the first
  region, and the previous region's base plus its size otherwise.
\<close>

definition next_address :: "VMPool \<Rightarrow> ulong" where
  "next_address v =
     (if region_iterator v = 0 then base_address v
      else region_base_address (allocated_region v (region_iterator v - 1))
           + region_size (allocated_region v (region_iterator v - 1)))"

text \<open>
  \<open>s\<close> rounded up to a whole number of pages of \<open>P\<close> bytes, over the natural numbers.
\<close>

definition round_up_to_pages :: "nat \<Rightarrow> nat \<Rightarrow> nat" where
  "round_up_to_pages P s = ((s + P - 1) div P) * P"

text \<open>
  Successive calls of \<^verbatim>\<open>allocate\<close> with the sizes of a list and no \<^verbatim>\<open>release\<close> in
  between: the addresses returned, in the order of the calls, and the pool after the
  last call; a fatal call ends the run.
\<close>

fun allocate_all ::
  "uint \<Rightarrow> uint \<Rightarrow> VMPool \<Rightarrow> ulong list \<Rightarrow> fatal + (ulong list \<times> VMPool)" where
  "allocate_all PAGE_SIZE MAX_VM_REGIONS v [] = Inr ([], v)"
| "allocate_all PAGE_SIZE MAX_VM_REGIONS v (s # ss) =
     (case allocate PAGE_SIZE MAX_VM_REGIONS v s of
        Inl e \<Rightarrow> Inl e
      | Inr (a, v') \<Rightarrow>
          (case allocate_all PAGE_SIZE MAX_VM_REGIONS v' ss of
             Inl e \<Rightarrow> Inl e
           | Inr (as, v'') \<Rightarrow> Inr (a # as, v'')))"

text \<open>
  The size \<^verbatim>\<open>allocate\<close> is asked for, rounded up to whole pages, as a natural number.
\<close>

definition rounded_size :: "uint \<Rightarrow> ulong \<Rightarrow> nat" where
  "rounded_size PAGE_SIZE s = round_up_to_pages (unat PAGE_SIZE) (unat s)"

text \<open>
  The pool of three pages at 512 MB, just constructed, with pages of 4096 bytes and a
  table of 512 descriptors.
\<close>

definition pool3 :: VMPool where
  "pool3 = new_VMPool no_regions [] 0x20000000 0x3000"

text \<open>
  The pool \<open>pool3\<close> after two calls \<^verbatim>\<open>allocate(4096)\<close>: two regions of one page each.
\<close>

definition pool3_two :: VMPool where
  "pool3_two =
     \<lparr>base_address = 0x20000000, pool_size = 0x3000, region_iterator = 2,
      allocated_region = no_regions
        (0 := \<lparr>region_base_address = 0x20000000, region_size = 0x1000\<rparr>,
         1 := \<lparr>region_base_address = 0x20001000, region_size = 0x1000\<rparr>),
      page_table = [Register_pool]\<rparr>"

text \<open>
  The free count of the pool agrees with its bitmap.
\<close>

definition count_ok :: "ContFramePool \<Rightarrow> bool" where
  "count_ok p \<longleftrightarrow> unat (n_free_frames p) = free_frames p"

text \<open>
  A run of frames as the callers of the pool know it: the number of its first frame
  and the number of its frames.
\<close>

type_synonym frame_run = "ulong \<times> ulong"

text \<open>
  \<open>in_run f r\<close>: the frame \<open>f\<close> is one of the frames of the run \<open>r\<close>, which are counted up
  from its first frame in 32-bit arithmetic.
\<close>

definition in_run :: "ulong \<Rightarrow> frame_run \<Rightarrow> bool" where
  "in_run f r \<longleftrightarrow> f - fst r < snd r"







section \<open>Lemmas on the frame pool's loops\<close>

declare init_free.simps [simp del] get_frames_search.simps [simp del] mark_used.simps [simp del]
  release_walk.simps [simp del] release_find.simps [simp del] release_pages.simps [simp del]
  release_shift.simps [simp del]

subsection \<open>Arithmetic without wrap-around\<close>

lemma unat_ulong_less: "unat (w::ulong) < 2 ^ 32"
proof -
  have "unat w < 2 ^ LENGTH(32)" by (rule unsigned_less)
  then show ?thesis by simp
qed

lemma unat_add_no_wrap: "unat a + unat b < 2 ^ 32 \<Longrightarrow> unat (a + b) = unat a + unat (b::ulong)"
  using unat_add_lem [of a b] by simp

lemma unat_add1_no_wrap: "unat a + 1 < 2 ^ 32 \<Longrightarrow> unat (a + 1) = unat (a::ulong) + 1"
  using unat_add_no_wrap [of a 1] by simp

lemma unat_add_of_nat:
  "unat s + j < 2 ^ 32 \<Longrightarrow> unat (s + of_nat j :: ulong) = unat s + j"
  by (simp add: unat_word_ariths(1) unat_of_nat mod_add_right_eq)

lemma of_nat_neq_0: "0 < n \<Longrightarrow> n < 2 ^ 32 \<Longrightarrow> (of_nat n :: ulong) \<noteq> 0"
proof
  assume "0 < n" "n < 2 ^ 32" "(of_nat n :: ulong) = 0"
  then have "unat (of_nat n :: ulong) = 0" by simp
  then show False using \<open>0 < n\<close> \<open>n < 2 ^ 32\<close> by (simp add: unat_of_nat)
qed

lemma range_step: "(i::ulong) < e \<Longrightarrow> (i \<le> g \<and> g < e) = (g = i \<or> (i + 1 \<le> g \<and> g < e))"
  by unat_arith

lemma word_range_offsets:
  assumes "unat (s::ulong) + k \<le> 2 ^ 32"
  shows "(unat s \<le> unat g \<and> unat g < unat s + k) \<longleftrightarrow> (\<exists>j<k. g = s + of_nat j)"
proof
  assume g: "unat s \<le> unat g \<and> unat g < unat s + k"
  define j where "j = unat g - unat s"
  have "j < k" using g by (simp add: j_def) arith
  moreover have "unat s + j < 2 ^ 32" using assms \<open>j < k\<close> by simp
  then have "unat (s + of_nat j) = unat s + j" by (rule unat_add_of_nat)
  then have "g = s + of_nat j" using g by (simp add: word_unat_eq_iff j_def)
  ultimately show "\<exists>j<k. g = s + of_nat j" by blast
next
  assume "\<exists>j<k. g = s + of_nat j"
  then obtain j where j: "j < k" "g = s + of_nat j" by blast
  then have "unat g = unat s + j" using assms by (simp add: unat_add_of_nat)
  then show "unat s \<le> unat g \<and> unat g < unat s + k" using j by simp
qed

subsection \<open>The loops that write the bitmap\<close>

lemma mark_used_fields:
  "base_frame_no (mark_used p i e) = base_frame_no p"
  "n_frames (mark_used p i e) = n_frames p"
  "info_frame_no (mark_used p i e) = info_frame_no p"
  by (induction p i e rule: mark_used.induct; subst mark_used.simps; simp)+

lemma mark_used_state:
  "get_state (bitmap (mark_used p i e)) g =
     (if i \<le> g \<and> g < e then Used else get_state (bitmap p) g)"
proof (induction p i e rule: mark_used.induct)
  case (1 p i e)
  show ?case
  proof (cases "i < e")
    case True
    then show ?thesis
      using "1.IH" [OF True] range_step [OF True, of g]
      by (subst mark_used.simps) (auto simp: get_state_set_state)
  next
    case False
    then show ?thesis by (subst mark_used.simps) auto
  qed
qed

lemma mark_used_n_free:
  "i \<le> e \<Longrightarrow> n_free_frames (mark_used p i e) = n_free_frames p - (e - i)"
proof (induction p i e rule: mark_used.induct)
  case (1 p i e)
  show ?case
  proof (cases "i < e")
    case True
    then have "i + 1 \<le> e" by unat_arith
    then show ?thesis
      using "1.IH" [OF True] True
      by (subst mark_used.simps) simp
  next
    case False
    with "1.prems" have "i = e" by simp
    then show ?thesis by (subst mark_used.simps) simp
  qed
qed

lemma init_free_state:
  "get_state (init_free bm n i) g = (if i \<le> g \<and> g < n then Free else get_state bm g)"
proof (induction bm n i rule: init_free.induct)
  case (1 bm n i)
  show ?case
  proof (cases "i < n")
    case True
    then show ?thesis
      using "1.IH" [OF True] range_step [OF True, of g]
      by (subst init_free.simps) (auto simp: get_state_set_state)
  next
    case False
    then show ?thesis by (subst init_free.simps) auto
  qed
qed

lemma mark_inaccessible_fields:
  "base_frame_no (mark_inaccessible p b n) = base_frame_no p"
  "n_frames (mark_inaccessible p b n) = n_frames p"
  "info_frame_no (mark_inaccessible p b n) = info_frame_no p"
  by (simp_all add: mark_inaccessible_def mark_used_fields)

lemma mark_inaccessible_state:
  "get_state (bitmap (mark_inaccessible p b n)) g =
     (if b + 1 \<le> g \<and> g < b + n then Used else if g = b then HoS
      else get_state (bitmap p) g)"
  by (simp add: mark_inaccessible_def mark_used_state get_state_set_state)

lemma mark_inaccessible_n_free:
  "b + 1 \<le> b + n \<Longrightarrow> n_free_frames (mark_inaccessible p b n) = n_free_frames p - n"
  by (simp add: mark_inaccessible_def mark_used_n_free)

lemma release_walk_fields:
  "base_frame_no (release_walk p f) = base_frame_no p"
  "n_frames (release_walk p f) = n_frames p"
  "info_frame_no (release_walk p f) = info_frame_no p"
  by (induction p f rule: release_walk.induct; subst release_walk.simps; simp)+

subsection \<open>Runs of frames\<close>

lemma all_state_iff:
  "all_state bm st s k \<longleftrightarrow> (\<forall>j<k. get_state bm (s + of_nat j) = st)"
proof (induction k arbitrary: s)
  case 0
  then show ?case by simp
next
  case (Suc k)
  have "(\<forall>j<Suc k. get_state bm (s + of_nat j) = st)
        \<longleftrightarrow> get_state bm s = st \<and> (\<forall>j<k. get_state bm (s + of_nat (Suc j)) = st)"
    by (auto simp: less_Suc_eq_0_disj)
  then show ?case using Suc.IH [of "s + 1"] by (simp add: add.assoc)
qed

lemma all_state_range:
  assumes "unat s + k \<le> 2 ^ 32"
  shows "all_state bm st s k
         \<longleftrightarrow> (\<forall>g. unat s \<le> unat g \<and> unat g < unat s + k \<longrightarrow> get_state bm g = st)"
proof -
  have off: "unat (s + of_nat j) = unat s + j" if "j < k" for j
  proof -
    have "unat s + j < 2 ^ 32" using that assms by simp
    then show ?thesis by (simp add: unat_word_ariths(1) unat_of_nat mod_add_right_eq)
  qed
  show ?thesis
  proof
    assume a: "all_state bm st s k"
    show "\<forall>g. unat s \<le> unat g \<and> unat g < unat s + k \<longrightarrow> get_state bm g = st"
    proof (intro allI impI)
      fix g :: ulong
      assume g: "unat s \<le> unat g \<and> unat g < unat s + k"
      define j where "j = unat g - unat s"
      have "j < k" using g by (simp add: j_def) arith
      moreover have "s + of_nat j = g"
        using off [OF \<open>j < k\<close>] g by (simp add: word_unat_eq_iff j_def)
      ultimately show "get_state bm g = st" using a by (auto simp: all_state_iff)
    qed
  next
    assume r: "\<forall>g. unat s \<le> unat g \<and> unat g < unat s + k \<longrightarrow> get_state bm g = st"
    show "all_state bm st s k"
      unfolding all_state_iff using r off by simp
  qed
qed

lemma all_state_numeral:
  "all_state bm st s (numeral k)
   = (get_state bm s = st \<and> all_state bm st (s + 1) (pred_numeral k))"
  by (simp add: numeral_eq_Suc)

lemma free_run_range:
  "free_run p s n \<longleftrightarrow>
     unat s + unat n \<le> unat (n_frames p)
     \<and> (\<forall>g. unat s \<le> unat g \<and> unat g < unat s + unat n \<longrightarrow> get_state (bitmap p) g = Free)"
proof (cases "unat s + unat n \<le> unat (n_frames p)")
  case True
  have "unat (n_frames p) < 2 ^ 32" by (rule unat_ulong_less)
  with True have "unat s + unat n \<le> 2 ^ 32" by simp
  then show ?thesis by (simp add: free_run_def all_state_range)
next
  case False
  then show ?thesis by (simp add: free_run_def)
qed

lemma count_state_numeral:
  "count_state bm st s (numeral k)
   = (if get_state bm s = st then 1 else 0) + count_state bm st (s + 1) (pred_numeral k)"
  by (simp add: numeral_eq_Suc)

lemma count_state_append:
  "count_state bm st s (k1 + k2)
   = count_state bm st s k1 + count_state bm st (s + of_nat k1) k2"
proof (induction k1 arbitrary: s)
  case 0
  then show ?case by simp
next
  case (Suc k1)
  show ?case using Suc.IH [of "s + 1"] by (simp add: add.assoc add.commute [of 1])
qed

lemma count_state_cong:
  "(\<And>j. j < k \<Longrightarrow> get_state bm (s + of_nat j) = get_state bm' (s + of_nat j))
   \<Longrightarrow> count_state bm st s k = count_state bm' st s k"
proof (induction k arbitrary: s)
  case 0
  then show ?case by simp
next
  case (Suc k)
  have "get_state bm s = get_state bm' s" using Suc.prems [of 0] by simp
  moreover have "count_state bm st (s + 1) k = count_state bm' st (s + 1) k"
  proof (rule Suc.IH)
    fix j assume "j < k"
    then show "get_state bm (s + 1 + of_nat j) = get_state bm' (s + 1 + of_nat j)"
      using Suc.prems [of "Suc j"] by (simp add: add.assoc)
  qed
  ultimately show ?case by simp
qed

lemma count_state_all:
  "(\<And>j. j < k \<Longrightarrow> get_state bm (s + of_nat j) = st) \<Longrightarrow> count_state bm st s k = k"
proof (induction k arbitrary: s)
  case 0
  then show ?case by simp
next
  case (Suc k)
  have "get_state bm s = st" using Suc.prems [of 0] by simp
  moreover have "count_state bm st (s + 1) k = k"
  proof (rule Suc.IH)
    fix j assume "j < k"
    then show "get_state bm (s + 1 + of_nat j) = st"
      using Suc.prems [of "Suc j"] by (simp add: add.assoc)
  qed
  ultimately show ?case by simp
qed

lemma count_state_none:
  "(\<And>j. j < k \<Longrightarrow> get_state bm (s + of_nat j) \<noteq> st) \<Longrightarrow> count_state bm st s k = 0"
proof (induction k arbitrary: s)
  case 0
  then show ?case by simp
next
  case (Suc k)
  have "get_state bm s \<noteq> st" using Suc.prems [of 0] by simp
  moreover have "count_state bm st (s + 1) k = 0"
  proof (rule Suc.IH)
    fix j assume "j < k"
    then show "get_state bm (s + 1 + of_nat j) \<noteq> st"
      using Suc.prems [of "Suc j"] by (simp add: add.assoc)
  qed
  ultimately show ?case by simp
qed

lemma count_state_le: "count_state bm st s k \<le> k"
  by (induction k arbitrary: s) (simp_all add: le_SucI)

lemma count_state_block:
  assumes fit: "unat (a::ulong) + m \<le> k" and k: "k \<le> 2 ^ 32"
    and out: "\<And>g. \<not> (unat a \<le> unat g \<and> unat g < unat a + m)
                \<Longrightarrow> get_state bm' g = get_state bm g"
    and all_free: "\<And>g. unat a \<le> unat g \<and> unat g < unat a + m \<Longrightarrow> get_state bm g = Free"
    and none_free: "\<And>g. unat a \<le> unat g \<and> unat g < unat a + m \<Longrightarrow> get_state bm' g \<noteq> Free"
  shows "count_state bm Free 0 k = count_state bm' Free 0 k + m"
proof -
  define r where "r = k - unat a - m"
  have k_eq: "k = unat a + (m + r)" using fit by (simp add: r_def)
  have split: "count_state b Free 0 k
        = count_state b Free 0 (unat a) + count_state b Free a m
          + count_state b Free (a + of_nat m) r" for b
    unfolding k_eq by (simp add: count_state_append)
  have lo: "unat (of_nat j :: ulong) = j" if "j < unat a" for j
    using that unat_ulong_less [of a] by (simp add: unat_of_nat)
  have mid: "unat (a + of_nat j) = unat a + j" if "j < m" for j
    using that fit k by (intro unat_add_of_nat) simp
  have hi: "unat (a + of_nat m + of_nat j) = unat a + m + j" if "j < r" for j
  proof -
    have "unat a + (m + j) < 2 ^ 32" using that k k_eq by simp
    then have "unat (a + of_nat (m + j)) = unat a + (m + j)" by (rule unat_add_of_nat)
    then show ?thesis by (simp add: add.assoc)
  qed
  have c1: "count_state bm Free 0 (unat a) = count_state bm' Free 0 (unat a)"
    by (rule count_state_cong) (simp add: out lo)
  have c3: "count_state bm Free (a + of_nat m) r = count_state bm' Free (a + of_nat m) r"
    by (rule count_state_cong) (simp add: out hi)
  have c2: "count_state bm Free a m = m"
    by (rule count_state_all) (simp add: all_free mid)
  have c2': "count_state bm' Free a m = 0"
    by (rule count_state_none) (simp add: none_free mid)
  show ?thesis using split [of bm] split [of bm'] c1 c2 c2' c3 by simp
qed

subsection \<open>The example pools\<close>

lemma get_state_numeral:
  "get_state bm (numeral k) =
     (let result = bm (numeral k div 4) AND frame_mask (2 * (numeral k mod 4))
      in if result = 0 then Free
         else if result = frame_mask (2 * (numeral k mod 4)) then Used else HoS)"
  "get_state bm 0 =
     (let result = bm 0 AND 3 in if result = 0 then Free else if result = 3 then Used else HoS)"
  "get_state bm 1 =
     (let result = bm 0 AND 12 in if result = 0 then Free else if result = 12 then Used else HoS)"
  by (simp_all add: get_state_def Let_def frame_mask_def)

lemma get_state_zero: "get_state (\<lambda>_. 0) g = Free"
  by (simp add: get_state_def)



lemma pool8_states:
  "get_state (bitmap pool8) 0 = Used" "get_state (bitmap pool8) 1 = Free"
  "get_state (bitmap pool8) 2 = Free" "get_state (bitmap pool8) 3 = Free"
  "get_state (bitmap pool8) 4 = Free" "get_state (bitmap pool8) 5 = Free"
  "get_state (bitmap pool8) 6 = Free" "get_state (bitmap pool8) 7 = Free"
  by (simp_all add: pool8_def get_state_numeral frame_mask_def)



lemma pool8_dirty_states:
  "get_state (bitmap pool8_dirty) 0 = Used"
  "get_state (bitmap pool8_dirty) 8 = Used" "get_state (bitmap pool8_dirty) 9 = Used"
  "get_state (bitmap pool8_dirty) 10 = Used" "get_state (bitmap pool8_dirty) 11 = Used"
  "get_state (bitmap pool8_dirty) 12 = Free"
  by (simp_all add: pool8_dirty_def get_state_numeral frame_mask_def)

lemma pool8_dirty_free:
  "get_state (bitmap pool8_dirty) 1 = Free" "get_state (bitmap pool8_dirty) 2 = Free"
  "get_state (bitmap pool8_dirty) 3 = Free" "get_state (bitmap pool8_dirty) 4 = Free"
  "get_state (bitmap pool8_dirty) 5 = Free" "get_state (bitmap pool8_dirty) 6 = Free"
  "get_state (bitmap pool8_dirty) 7 = Free"
  by (simp_all add: pool8_dirty_def get_state_numeral frame_mask_def)

lemma new_pool8_dirty:
  "new_ContFramePool 4096 ((\<lambda>_. 0)(0x200002 := 0xFF)) [] 512 8 0 = Inr (pool8_dirty, [pool8_dirty])"
proof -
  have i: "init_free (\<lambda>k::ulong. if k = 2 then 0xFF else (0::uchar)) 8 0
           = (\<lambda>k. if k = 2 then 0xFF else 0)"
    by (auto simp: init_free.simps set_state_def frame_mask_def fun_eq_iff)
  have u: "set_state (\<lambda>k::ulong. if k = 2 then 0xFF else (0::uchar)) 0 Used
           = (\<lambda>_. 0)(0 := 3, 2 := 0xFF)"
    by (auto simp: set_state_def frame_mask_def fun_eq_iff)
  show ?thesis
    by (simp add: new_ContFramePool_def Let_def i u pool8_dirty_def)
qed

section \<open>Properties of the constructor\<close>

lemma new_ContFramePool_result:
  assumes "n \<le> FRAME_SIZE * 8"
  obtains p where "new_ContFramePool FRAME_SIZE mem pools b n info = Inr (p, pools @ [p])"
    and "base_frame_no p = b" and "n_frames p = n" and "info_frame_no p = info"
    and "n_free_frames p = (if info = 0 then n - 1 else n)"
    and "\<And>g. get_state (bitmap p) g =
           (if info = 0 \<and> g = 0 then Used
            else if g < n then Free
            else get_state (\<lambda>k. mem ((if info = 0 then b * FRAME_SIZE else info * FRAME_SIZE) + k)) g)"
proof -
  define ptr where "ptr = (if info = 0 then b * FRAME_SIZE else info * FRAME_SIZE)"
  define bm where "bm = init_free (\<lambda>k. mem (ptr + k)) n 0"
  define p where "p = (if info = 0
      then \<lparr>base_frame_no = b, n_frames = n, n_free_frames = n - 1, info_frame_no = info,
            bitmap = set_state bm 0 Used\<rparr>
      else \<lparr>base_frame_no = b, n_frames = n, n_free_frames = n, info_frame_no = info,
            bitmap = bm\<rparr>)"
  have "new_ContFramePool FRAME_SIZE mem pools b n info = Inr (p, pools @ [p])"
    using assms by (simp add: new_ContFramePool_def Let_def p_def bm_def ptr_def)
  moreover have "base_frame_no p = b" "n_frames p = n" "info_frame_no p = info"
    "n_free_frames p = (if info = 0 then n - 1 else n)"
    by (simp_all add: p_def)
  moreover have "get_state (bitmap p) g =
           (if info = 0 \<and> g = 0 then Used
            else if g < n then Free
            else get_state (\<lambda>k. mem (ptr + k)) g)" for g
    by (simp add: p_def bm_def get_state_set_state init_free_state)
  ultimately show ?thesis using that unfolding ptr_def by blast
qed

lemma new_ContFramePool_check:
  "new_ContFramePool FRAME_SIZE mem pools b n info = Inl Assertion_failed
   \<longleftrightarrow> n > FRAME_SIZE * 8"
  by (auto simp: new_ContFramePool_def Let_def)

text \<open>
  Claim C3 fails on the code at this input. With \<open>FRAME_SIZE = 4096\<close> one frame holds
  the two-bit entries of \<open>4096 * 8 div 2 = 16384\<close> frames. The constructor accepts
  \<open>n_frames = 16385\<close>, since it compares with \<open>FRAME_SIZE * 8\<close>, and writes the entry of
  frame 16384, which is in byte \<open>16384 div 4 = 4096\<close> of the bitmap, the first byte after
  the frame: on memory of \<open>0xFF\<close> bytes that entry read \<open>Used\<close> and reads \<open>Free\<close>
  afterwards.
\<close>

theorem new_ContFramePool_accepts_two_frame_bitmap:
  "(16385::ulong) > 4096 * 8 div 2
   \<and> get_state (\<lambda>_. 0xFF) 16384 = Used
   \<and> (\<exists>p. new_ContFramePool 4096 (\<lambda>_. 0xFF) [] 0 16385 1 = Inr (p, [p])
          \<and> n_frames p = 16385 \<and> get_state (bitmap p) 16384 = Free)"
proof -
  have le: "(16385::ulong) \<le> 4096 * 8" by simp
  obtain p where "new_ContFramePool 4096 (\<lambda>_. 0xFF) [] 0 16385 1 = Inr (p, [] @ [p])"
    "n_frames p = 16385"
    "\<And>g. get_state (bitmap p) g =
           (if (1::ulong) = 0 \<and> g = 0 then Used
            else if g < 16385 then Free
            else get_state (\<lambda>k. (\<lambda>_. 0xFF) ((if (1::ulong) = 0 then 0 * 4096 else 1 * 4096) + k)) g)"
    using new_ContFramePool_result [OF le] by blast
  then have "new_ContFramePool 4096 (\<lambda>_. 0xFF) [] 0 16385 1 = Inr (p, [p])
          \<and> n_frames p = 16385 \<and> get_state (bitmap p) 16384 = Free"
    by simp
  moreover have "get_state (\<lambda>_. 0xFF) 16384 = Used"
    by (simp add: get_state_numeral frame_mask_def)
  ultimately show ?thesis by auto
qed

section \<open>Properties of \<^verbatim>\<open>get_frames\<close>\<close>

lemma search_inv:
  assumes "n \<noteq> 0"
    and "unat count < unat n"
    and "unat count \<le> unat i"
    and "\<forall>g. unat i - unat count \<le> unat g \<and> unat g < unat i \<longrightarrow> get_state bm g = Free"
    and "\<forall>s::ulong. unat s < unat i - unat count \<longrightarrow>
           (\<exists>g. unat s \<le> unat g \<and> unat g < unat s + unat n \<and> unat g < unat i
                \<and> get_state bm g \<noteq> Free)"
  shows "case get_frames_search bm nf n i count of
           Some r \<Rightarrow>
             unat r < unat nf \<and> unat n \<le> unat r + 1
             \<and> (\<forall>g. unat r + 1 - unat n \<le> unat g \<and> unat g \<le> unat r \<longrightarrow> get_state bm g = Free)
             \<and> (\<forall>s::ulong. unat s < unat r + 1 - unat n \<longrightarrow>
                    (\<exists>g. unat s \<le> unat g \<and> unat g < unat s + unat n \<and> get_state bm g \<noteq> Free))
         | None \<Rightarrow>
             (\<forall>s::ulong. unat s + unat n \<le> unat nf \<longrightarrow>
                    (\<exists>g. unat s \<le> unat g \<and> unat g < unat s + unat n \<and> get_state bm g \<noteq> Free))"
  using assms
proof (induction bm nf n i count rule: get_frames_search.induct)
  case (1 bm nf n i count)
  note inv_free = "1.prems"(4) and inv_low = "1.prems"(5)
  show ?case
  proof (cases "i < nf")
    case False
    then have nf_le: "unat nf \<le> unat i" by (simp add: word_less_nat_alt)
    have "\<exists>g. unat s \<le> unat g \<and> unat g < unat s + unat n \<and> get_state bm g \<noteq> Free"
      if "unat s + unat n \<le> unat nf" for s :: ulong
    proof -
      have "unat s < unat i - unat count" using that nf_le "1.prems"(2,3) by arith
      then show ?thesis using inv_low by blast
    qed
    then show ?thesis using False by (subst get_frames_search.simps) simp
  next
    case True
    then have i_lt: "unat i < unat nf" by (simp add: word_less_nat_alt)
    have i_inc: "unat (i + 1) = Suc (unat i)" using True by (rule unat_inc)
    show ?thesis
    proof (cases "get_state bm i = Free")
      case isfree: True
      have c_inc: "unat (count + 1) = Suc (unat count)"
        using "1.prems"(2) by unat_arith
      show ?thesis
      proof (cases "count + 1 = n")
        case found: True
        have n_eq: "unat n = Suc (unat count)" using found c_inc by simp
        have "get_state bm g = Free" if "unat i + 1 - unat n \<le> unat g \<and> unat g \<le> unat i" for g :: ulong
        proof (cases "unat g < unat i")
          case True
          then show ?thesis using that inv_free n_eq by simp
        next
          case False
          then have "g = i" using that by (simp add: word_unat_eq_iff)
          then show ?thesis using isfree by simp
        qed
        moreover have "\<exists>g. unat s \<le> unat g \<and> unat g < unat s + unat n \<and> get_state bm g \<noteq> Free"
          if "unat s < unat i + 1 - unat n" for s :: ulong
          using that inv_low n_eq by (metis Suc_eq_plus1 diff_Suc_Suc)
        ultimately show ?thesis
          using True isfree found i_lt n_eq "1.prems"(3)
          by (subst get_frames_search.simps) simp
      next
        case notyet: False
        have ih: "?thesis" if
          "unat (count + 1) < unat n" "unat (count + 1) \<le> unat (i + 1)"
          "\<forall>g. unat (i + 1) - unat (count + 1) \<le> unat g \<and> unat g < unat (i + 1) \<longrightarrow> get_state bm g = Free"
          "\<forall>s::ulong. unat s < unat (i + 1) - unat (count + 1) \<longrightarrow>
           (\<exists>g. unat s \<le> unat g \<and> unat g < unat s + unat n \<and> unat g < unat (i + 1)
                \<and> get_state bm g \<noteq> Free)"
          using "1.IH" [OF True refl _ "1.prems"(1)] that True isfree notyet
          by (subst get_frames_search.simps) simp
        have p1: "unat (count + 1) < unat n"
          using c_inc "1.prems"(2) notyet by (metis Suc_lessI word_unat_eq_iff)
        have p2: "unat (count + 1) \<le> unat (i + 1)" using c_inc i_inc "1.prems"(3) by simp
        have p3: "get_state bm g = Free"
          if "unat (i + 1) - unat (count + 1) \<le> unat g \<and> unat g < unat (i + 1)" for g :: ulong
        proof (cases "unat g < unat i")
          case True
          then show ?thesis using that inv_free c_inc i_inc by simp
        next
          case False
          then have "g = i" using that i_inc by (simp add: word_unat_eq_iff)
          then show ?thesis using isfree by simp
        qed
        have p4: "\<exists>g. unat s \<le> unat g \<and> unat g < unat s + unat n \<and> unat g < unat (i + 1)
                \<and> get_state bm g \<noteq> Free"
          if "unat s < unat (i + 1) - unat (count + 1)" for s :: ulong
        proof -
          from that have "unat s < unat i - unat count" using c_inc i_inc by simp
          with inv_low obtain g where "unat s \<le> unat g" "unat g < unat s + unat n"
            "unat g < unat i" "get_state bm g \<noteq> Free" by blast
          then show ?thesis using i_inc by auto
        qed
        show ?thesis by (rule ih [OF p1 p2]) (use p3 p4 in blast)+
      qed
    next
      case notfree: False
      have ih: "?thesis" if
          "unat (0::ulong) < unat n" "unat (0::ulong) \<le> unat (i + 1)"
          "\<forall>g. unat (i + 1) - unat (0::ulong) \<le> unat g \<and> unat g < unat (i + 1) \<longrightarrow> get_state bm g = Free"
          "\<forall>s::ulong. unat s < unat (i + 1) - unat (0::ulong) \<longrightarrow>
           (\<exists>g. unat s \<le> unat g \<and> unat g < unat s + unat n \<and> unat g < unat (i + 1)
                \<and> get_state bm g \<noteq> Free)"
        using "1.IH" [OF True refl _ "1.prems"(1)] that True notfree "1.prems"(1)
        by (subst get_frames_search.simps) (simp add: eq_commute [of 0 n])
      have p1: "unat (0::ulong) < unat n" using "1.prems"(1) by (simp add: unat_gt_0)
      have p4: "\<exists>g. unat s \<le> unat g \<and> unat g < unat s + unat n \<and> unat g < unat (i + 1)
                \<and> get_state bm g \<noteq> Free"
          if "unat s < unat (i + 1) - unat (0::ulong)" for s :: ulong
      proof (cases "unat s < unat i - unat count")
        case True
        with inv_low obtain g where "unat s \<le> unat g" "unat g < unat s + unat n"
            "unat g < unat i" "get_state bm g \<noteq> Free" by blast
        then show ?thesis using i_inc by auto
      next
        case False
        then have "unat s \<le> unat i \<and> unat i < unat s + unat n \<and> unat i < unat (i + 1)"
          using that i_inc "1.prems"(2,3) by simp
        then show ?thesis using notfree by blast
      qed
      have p2: "unat (0::ulong) \<le> unat (i + 1)" by simp
      have p3: "\<forall>g. unat (i + 1) - unat (0::ulong) \<le> unat g \<and> unat g < unat (i + 1)
                  \<longrightarrow> get_state bm g = Free" by auto
      show ?thesis by (rule ih [OF p1 p2 p3]) (use p4 in blast)
    qed
  qed
qed

lemma search_from_start:
  assumes "n \<noteq> 0"
  shows "case get_frames_search bm nf n 0 0 of
           Some r \<Rightarrow>
             unat r < unat nf \<and> unat n \<le> unat r + 1
             \<and> (\<forall>g. unat r + 1 - unat n \<le> unat g \<and> unat g \<le> unat r \<longrightarrow> get_state bm g = Free)
             \<and> (\<forall>s::ulong. unat s < unat r + 1 - unat n \<longrightarrow>
                    (\<exists>g. unat s \<le> unat g \<and> unat g < unat s + unat n \<and> get_state bm g \<noteq> Free))
         | None \<Rightarrow>
             (\<forall>s::ulong. unat s + unat n \<le> unat nf \<longrightarrow>
                    (\<exists>g. unat s \<le> unat g \<and> unat g < unat s + unat n \<and> get_state bm g \<noteq> Free))"
proof (rule search_inv [OF assms])
  show "unat (0::ulong) < unat n" using assms by (simp add: unat_gt_0)
qed simp_all

lemma search_none_no_run:
  assumes "n \<noteq> 0" and "get_frames_search (bitmap p) (n_frames p) n 0 0 = None"
  shows "\<not> free_run p s n"
  using search_from_start [where bm = "bitmap p" and nf = "n_frames p", OF assms(1)] assms(2)
  by (auto simp: free_run_range)

lemma start_frame_unat:
  assumes "unat n \<le> unat r + 1" and "(r::ulong) < nf"
  shows "unat (r - n + 1) = unat r + 1 - unat n"
  using assms by unat_arith

lemma search_some_run:
  assumes "n \<noteq> 0" and "get_frames_search (bitmap p) (n_frames p) n 0 0 = Some r"
  shows "unat (r - n + 1) + unat n = unat r + 1"
    and "unat r < unat (n_frames p)"
    and "free_run p (r - n + 1) n"
    and "free_run p s' n \<Longrightarrow> r - n + 1 \<le> s'"
proof -
  from search_from_start [where bm = "bitmap p" and nf = "n_frames p", OF assms(1)] assms(2)
  have r_lt: "unat r < unat (n_frames p)" and n_le: "unat n \<le> unat r + 1"
    and fr: "\<forall>g. unat r + 1 - unat n \<le> unat g \<and> unat g \<le> unat r \<longrightarrow> get_state (bitmap p) g = Free"
    and low: "\<forall>s::ulong. unat s < unat r + 1 - unat n \<longrightarrow>
                (\<exists>g. unat s \<le> unat g \<and> unat g < unat s + unat n \<and> get_state (bitmap p) g \<noteq> Free)"
    by simp_all
  have st: "unat (r - n + 1) = unat r + 1 - unat n"
    using n_le r_lt by (intro start_frame_unat [of n r "n_frames p"]) (simp_all add: word_less_nat_alt)
  show "unat (r - n + 1) + unat n = unat r + 1" using st n_le by simp
  show "unat r < unat (n_frames p)" by (rule r_lt)
  show "free_run p (r - n + 1) n"
    unfolding free_run_range using st n_le r_lt fr by auto
  show "r - n + 1 \<le> s'" if "free_run p s' n"
  proof (rule ccontr)
    assume "\<not> r - n + 1 \<le> s'"
    then have "unat s' < unat r + 1 - unat n" using st by (simp add: word_le_nat_alt)
    with low obtain g where "unat s' \<le> unat g" "unat g < unat s' + unat n"
      "get_state (bitmap p) g \<noteq> Free" by blast
    with that show False by (auto simp: free_run_range)
  qed
qed

lemma get_frames_found:
  assumes free: "n_free_frames p > 0" and n: "n \<noteq> 0"
    and found: "get_frames_search (bitmap p) (n_frames p) n 0 0 = Some r"
  defines "s \<equiv> r - n + 1"
  shows "\<exists>p'. get_frames p n = Inr (s + base_frame_no p, p')
           \<and> (\<forall>g. get_state (bitmap p') g =
                  (if g = s then HoS else if s < g \<and> g < s + n then Used
                   else get_state (bitmap p) g))
           \<and> n_free_frames p' = n_free_frames p - n
           \<and> base_frame_no p' = base_frame_no p \<and> n_frames p' = n_frames p
           \<and> info_frame_no p' = info_frame_no p"
proof -
  have sum: "unat s + unat n = unat r + 1" and r_lt: "unat r < unat (n_frames p)"
    unfolding s_def using search_some_run(1,2) [OF n found] by simp_all
  have n_pos: "0 < unat n" using n by (simp add: unat_gt_0)
  have bound: "unat s + unat n < 2 ^ 32"
    using sum r_lt unat_ulong_less [of "n_frames p"] by simp
  have s1: "unat (s + 1) = unat s + 1" using bound n_pos by (intro unat_add1_no_wrap) simp
  have sn: "unat (s + n) = unat s + unat n" using bound by (rule unat_add_no_wrap)
  have le: "s + 1 \<le> s + n" using s1 sn n_pos by (simp add: word_le_nat_alt)
  define p1 where "p1 = p\<lparr>bitmap := set_state (bitmap p) s HoS,
                            n_free_frames := n_free_frames p - 1\<rparr>"
  define p2 where "p2 = mark_used p1 (s + 1) (s + n)"
  have res: "get_frames p n = Inr (s + base_frame_no p, p2)"
    using free found by (simp add: get_frames_def Let_def p2_def p1_def s_def mark_used_fields)
  have st: "get_state (bitmap p2) g =
              (if g = s then HoS else if s < g \<and> g < s + n then Used
               else get_state (bitmap p) g)" for g
  proof -
    have "(s + 1 \<le> g \<and> g < s + n) = (g \<noteq> s \<and> s < g \<and> g < s + n)"
      using s1 sn by (auto simp: word_le_nat_alt word_less_nat_alt)
    then show ?thesis
      by (simp add: p2_def mark_used_state p1_def get_state_set_state)
  qed
  have nf: "n_free_frames p2 = n_free_frames p - n"
    by (simp add: p2_def mark_used_n_free [OF le] p1_def)
  have "base_frame_no p2 = base_frame_no p \<and> n_frames p2 = n_frames p
        \<and> info_frame_no p2 = info_frame_no p"
    by (simp add: p2_def mark_used_fields p1_def)
  with res st nf show ?thesis by blast
qed

lemma get_frames_at:
  assumes free: "n_free_frames p > 0" and n: "n \<noteq> 0"
    and run: "free_run p s n" and low: "\<forall>s'. s' < s \<longrightarrow> \<not> free_run p s' n"
  obtains p' where "get_frames p n = Inr (s + base_frame_no p, p')"
    and "\<And>g. get_state (bitmap p') g =
                  (if g = s then HoS else if s < g \<and> g < s + n then Used
                   else get_state (bitmap p) g)"
    and "n_free_frames p' = n_free_frames p - n"
    and "base_frame_no p' = base_frame_no p" and "n_frames p' = n_frames p"
    and "info_frame_no p' = info_frame_no p"
proof -
  obtain r where found: "get_frames_search (bitmap p) (n_frames p) n 0 0 = Some r"
    using search_none_no_run [OF n] run
    by (cases "get_frames_search (bitmap p) (n_frames p) n 0 0") auto
  have "r - n + 1 \<le> s" using search_some_run(4) [OF n found run] .
  moreover have "\<not> r - n + 1 < s" using search_some_run(3) [OF n found] low by blast
  ultimately have eq: "r - n + 1 = s" by simp
  from get_frames_found [OF free n found, unfolded eq] that show ?thesis by blast
qed

text \<open>
  Claim C7. For a pool with a positive free count, if no run of \<open>n\<close> consecutive free
  frames exists then \<^verbatim>\<open>get_frames(n)\<close> returns 0 and leaves the pool (bitmap and free
  count) as it was.
\<close>

theorem get_frames_no_run:
  assumes "n_free_frames p > 0" and "\<not> (\<exists>s. free_run p s n)"
  shows "get_frames p n = Inr (0, p)"
proof -
  have n: "n \<noteq> 0"
  proof
    assume "n = 0"
    then have "free_run p 0 n" by (simp add: free_run_def)
    with assms(2) show False by blast
  qed
  have "get_frames_search (bitmap p) (n_frames p) n 0 0 = None"
  proof (cases "get_frames_search (bitmap p) (n_frames p) n 0 0")
    case (Some r)
    from search_some_run(3) [OF n Some] assms(2) show ?thesis by blast
  qed simp
  then show ?thesis using assms(1) by (simp add: get_frames_def)
qed

theorem get_frames_no_run_witness:
  "n_free_frames pool8 > 0 \<and> \<not> (\<exists>s. free_run pool8 s 8)
   \<and> get_frames pool8 8 = Inr (0, pool8)"
proof -
  have free: "n_free_frames pool8 > 0" by (simp add: pool8_def)
  have norun: "\<not> (\<exists>s. free_run pool8 s 8)"
  proof
    assume "\<exists>s. free_run pool8 s 8"
    then obtain s where s: "free_run pool8 s 8" by blast
    then have "unat s = 0" by (simp add: free_run_def pool8_def)
    then have "s = 0" by (simp add: unat_eq_0)
    with s show False by (simp add: free_run_def all_state_numeral pool8_states)
  qed
  from get_frames_no_run [OF free norun] free norun show ?thesis by simp
qed

section \<open>Properties of \<^verbatim>\<open>mark_inaccessible\<close>\<close>

text \<open>
  Claim C8 fails on the code at this input. The pool \<open>pool8\<close> governs the frames 512 to
  519. \<^verbatim>\<open>mark_inaccessible(514, 2)\<close> names the frames 514 and 515, the entries 2 and 3 of
  the bitmap. The code passes the frame number itself to \<^verbatim>\<open>set_state\<close>: it writes the
  entries 514 and 515, which lie outside the pool, and leaves the entries 2 and 3
  \<open>Free\<close>, while the free count falls from 7 to 5.
\<close>

theorem mark_inaccessible_absolute_index:
  "base_frame_no pool8 = 512 \<and> n_frames pool8 = 8 \<and> n_free_frames pool8 = 7
   \<and> get_state (bitmap (mark_inaccessible pool8 514 2)) 2 = Free
   \<and> get_state (bitmap (mark_inaccessible pool8 514 2)) 3 = Free
   \<and> get_state (bitmap (mark_inaccessible pool8 514 2)) 514 = HoS
   \<and> get_state (bitmap (mark_inaccessible pool8 514 2)) 515 = Used
   \<and> n_free_frames (mark_inaccessible pool8 514 2) = 5"
proof -
  have "get_state (bitmap (mark_inaccessible pool8 514 2)) 2 = Free"
    "get_state (bitmap (mark_inaccessible pool8 514 2)) 3 = Free"
    "get_state (bitmap (mark_inaccessible pool8 514 2)) 514 = HoS"
    "get_state (bitmap (mark_inaccessible pool8 514 2)) 515 = Used"
    by (simp_all add: mark_inaccessible_state pool8_states)
  moreover have "n_free_frames (mark_inaccessible pool8 514 2) = 5"
    by (simp add: mark_inaccessible_n_free) (simp add: pool8_def)
  ultimately show ?thesis by (simp add: pool8_def)
qed

section \<open>Properties of \<^verbatim>\<open>release_frames\<close>\<close>

lemma in_range_unat:
  "in_range p f \<Longrightarrow>
     unat (base_frame_no p) \<le> unat f \<and> unat f < unat (base_frame_no p) + unat (n_frames p)"
  unfolding in_range_def by unat_arith

lemma find_pool_None: "find_pool pools f = None \<longleftrightarrow> (\<forall>p \<in> set pools. \<not> in_range p f)"
  by (induction pools) (auto simp: in_range_def)

lemma find_pool_Some:
  "find_pool pools f = Some k \<longleftrightarrow>
     k < length pools \<and> in_range (pools ! k) f \<and> (\<forall>j<k. \<not> in_range (pools ! j) f)"
proof (induction pools arbitrary: k)
  case Nil
  then show ?case by simp
next
  case (Cons p ps)
  show ?case
  proof (cases "in_range p f")
    case True
    then have "find_pool (p # ps) f = Some 0" by (simp add: in_range_def)
    moreover have "(k < length (p # ps) \<and> in_range ((p # ps) ! k) f
        \<and> (\<forall>j<k. \<not> in_range ((p # ps) ! j) f)) \<longleftrightarrow> k = 0"
      using True by (cases k) auto
    ultimately show ?thesis by auto
  next
    case False
    then have fp: "find_pool (p # ps) f = map_option Suc (find_pool ps f)"
      by (auto simp: in_range_def)
    show ?thesis
    proof (cases k)
      case 0
      then show ?thesis using False fp by auto
    next
      case (Suc k')
      have "(\<forall>j<Suc k'. \<not> in_range ((p # ps) ! j) f) \<longleftrightarrow> (\<forall>j<k'. \<not> in_range (ps ! j) f)"
        using False by (auto simp: less_Suc_eq_0_disj)
      then show ?thesis using Suc fp Cons.IH [of k'] by auto
    qed
  qed
qed

text \<open>
  Claim C6. \<^verbatim>\<open>release_frames(f)\<close> reports "Pool not found" and leaves the list of
  pools as it was when \<open>f\<close> lies in the range of no registered pool; it reports "First
  frame is not a head frame" and leaves the list as it was when the state of \<open>f\<close> in
  its owning pool, the first registered pool whose range holds \<open>f\<close>, is \<open>Used\<close>
  or \<open>Free\<close>.
\<close>

theorem release_frames_rejected:
  "((\<forall>p \<in> set pools. \<not> in_range p f) \<longrightarrow> release_frames pools f = (Pool_not_found, pools))
   \<and> (k < length pools \<and> in_range (pools ! k) f \<and> (\<forall>j<k. \<not> in_range (pools ! j) f)
        \<and> get_state (bitmap (pools ! k)) (f - base_frame_no (pools ! k)) \<in> {Used, Free}
      \<longrightarrow> release_frames pools f = (Not_head_frame, pools))"
proof (intro conjI impI)
  assume "\<forall>p \<in> set pools. \<not> in_range p f"
  then have "find_pool pools f = None" by (simp add: find_pool_None)
  then show "release_frames pools f = (Pool_not_found, pools)"
    by (simp add: release_frames_def)
next
  assume a: "k < length pools \<and> in_range (pools ! k) f \<and> (\<forall>j<k. \<not> in_range (pools ! j) f)
        \<and> get_state (bitmap (pools ! k)) (f - base_frame_no (pools ! k)) \<in> {Used, Free}"
  then have "find_pool pools f = Some k" by (simp add: find_pool_Some)
  moreover have "get_state (bitmap (pools ! k)) (f - base_frame_no (pools ! k)) \<noteq> HoS"
    using a by auto
  ultimately show "release_frames pools f = (Not_head_frame, pools)"
    by (simp add: release_frames_def Let_def)
qed

theorem release_frames_rejected_witness:
  "release_frames [pool8] 10 = (Pool_not_found, [pool8])
   \<and> release_frames [pool8] 512 = (Not_head_frame, [pool8])
   \<and> release_frames [pool8] 513 = (Not_head_frame, [pool8])"
proof -
  have r: "\<not> in_range pool8 10" "in_range pool8 512" "in_range pool8 513"
    by (simp_all add: in_range_def pool8_def)
  have s: "get_state (bitmap pool8) (512 - base_frame_no pool8) = Used"
    "get_state (bitmap pool8) (513 - base_frame_no pool8) = Free"
    using pool8_states by (simp_all add: pool8_def)
  have "release_frames [pool8] 10 = (Pool_not_found, [pool8])"
    using release_frames_rejected [of "[pool8]" 10 0] r by simp
  moreover have "release_frames [pool8] 512 = (Not_head_frame, [pool8])"
    using release_frames_rejected [of "[pool8]" 512 0] r s by simp
  moreover have "release_frames [pool8] 513 = (Not_head_frame, [pool8])"
    using release_frames_rejected [of "[pool8]" 513 0] r s by simp
  ultimately show ?thesis by simp
qed

lemma release_walk_run:
  assumes "all_state (bitmap p) Used (f - base_frame_no p) k"
    and "get_state (bitmap p) (f - base_frame_no p + of_nat k) \<noteq> Used"
    and "k < 2 ^ 32"
  shows "n_free_frames (release_walk p f) = n_free_frames p + of_nat k
         \<and> (\<forall>g. get_state (bitmap (release_walk p f)) g =
                (if \<exists>j<k. g = f - base_frame_no p + of_nat j then Free
                 else get_state (bitmap p) g))"
  using assms
proof (induction k arbitrary: p f)
  case 0
  then show ?case by (subst release_walk.simps, subst release_walk.simps) simp
next
  case (Suc k)
  define a where "a = f - base_frame_no p"
  define p' where "p' = p\<lparr>bitmap := set_state (bitmap p) a Free,
                            n_free_frames := n_free_frames p + 1\<rparr>"
  have used_a: "get_state (bitmap p) a = Used"
    and rest: "all_state (bitmap p) Used (a + 1) k"
    using Suc.prems(1) by (simp_all add: a_def)
  have step: "release_walk p f = release_walk p' (f + 1)"
    using used_a by (subst release_walk.simps) (simp add: a_def p'_def)
  have a': "f + 1 - base_frame_no p' = a + 1" by (simp add: p'_def a_def)
  have ne: "a + 1 + of_nat j \<noteq> a" if "j \<le> k" for j
  proof -
    have "(of_nat (Suc j) :: ulong) \<noteq> 0"
      using that Suc.prems(3) by (intro of_nat_neq_0) simp_all
    then show ?thesis by (simp add: add.assoc)
  qed
  have p1: "all_state (bitmap p') Used (f + 1 - base_frame_no p') k"
    unfolding a' all_state_iff
  proof (intro allI impI)
    fix j assume "j < k"
    then have "get_state (bitmap p) (a + 1 + of_nat j) = Used"
      using rest by (simp add: all_state_iff)
    then show "get_state (bitmap p') (a + 1 + of_nat j) = Used"
      using ne [of j] \<open>j < k\<close> by (simp add: p'_def get_state_set_state)
  qed
  have p2: "get_state (bitmap p') (f + 1 - base_frame_no p' + of_nat k) \<noteq> Used"
    unfolding a' using Suc.prems(2) ne [of k]
    by (simp add: p'_def get_state_set_state a_def add.assoc)
  have p3: "k < 2 ^ 32" using Suc.prems(3) by simp
  note ih = Suc.IH [OF p1 p2 p3, unfolded a']
  have ex: "(\<exists>j<Suc k. g = a + of_nat j) \<longleftrightarrow> g = a \<or> (\<exists>j<k. g = a + 1 + of_nat j)" for g
    by (auto simp: less_Suc_eq_0_disj add.assoc)
  show ?case
    unfolding step a_def [symmetric] ex
    using ih by (auto simp: p'_def get_state_set_state)
qed

lemma release_frames_accepted:
  assumes found: "find_pool pools f = Some k"
    and head: "get_state (bitmap (pools ! k)) (f - base_frame_no (pools ! k)) = HoS"
    and used: "all_state (bitmap (pools ! k)) Used (f - base_frame_no (pools ! k) + 1) m"
    and stop: "get_state (bitmap (pools ! k)) (f - base_frame_no (pools ! k) + 1 + of_nat m) \<noteq> Used"
    and m: "Suc m < 2 ^ 32"
  obtains q where "release_frames pools f = (Released, pools[k := q])"
    and "n_free_frames q = n_free_frames (pools ! k) + 1 + of_nat m"
    and "\<And>g. get_state (bitmap q) g =
           (if \<exists>j<Suc m. g = f - base_frame_no (pools ! k) + of_nat j then Free
            else get_state (bitmap (pools ! k)) g)"
    and "base_frame_no q = base_frame_no (pools ! k)" and "n_frames q = n_frames (pools ! k)"
    and "info_frame_no q = info_frame_no (pools ! k)"
proof -
  define p where "p = pools ! k"
  define a where "a = f - base_frame_no p"
  define p1 where "p1 = p\<lparr>bitmap := set_state (bitmap p) a Free,
                            n_free_frames := n_free_frames p + 1\<rparr>"
  define q where "q = release_walk p1 (f + 1)"
  have res: "release_frames pools f = (Released, pools[k := q])"
    using found head
    by (simp add: release_frames_def Let_def q_def p1_def a_def p_def)
  have a1: "f + 1 - base_frame_no p1 = a + 1" by (simp add: p1_def a_def)
  have ne: "a + 1 + of_nat j \<noteq> a" if "j \<le> m" for j
  proof -
    have "(of_nat (Suc j) :: ulong) \<noteq> 0"
      using that m by (intro of_nat_neq_0) simp_all
    then show ?thesis by (simp add: add.assoc)
  qed
  have u1: "all_state (bitmap p1) Used (f + 1 - base_frame_no p1) m"
    unfolding a1 all_state_iff
  proof (intro allI impI)
    fix j assume "j < m"
    then have "get_state (bitmap p) (a + 1 + of_nat j) = Used"
      using used by (simp add: all_state_iff a_def p_def)
    then show "get_state (bitmap p1) (a + 1 + of_nat j) = Used"
      using ne [of j] \<open>j < m\<close> by (simp add: p1_def get_state_set_state)
  qed
  have s1: "get_state (bitmap p1) (f + 1 - base_frame_no p1 + of_nat m) \<noteq> Used"
    unfolding a1 using stop ne [of m]
    by (simp add: p1_def get_state_set_state a_def p_def)
  have m': "m < 2 ^ 32" using m by simp
  note w = release_walk_run [OF u1 s1 m', folded q_def, unfolded a1]
  have ex: "(\<exists>j<Suc m. g = a + of_nat j) \<longleftrightarrow> g = a \<or> (\<exists>j<m. g = a + 1 + of_nat j)" for g
    by (auto simp: less_Suc_eq_0_disj add.assoc)
  have "n_free_frames q = n_free_frames p + 1 + of_nat m"
    using w by (simp add: p1_def)
  moreover have "get_state (bitmap q) g =
           (if \<exists>j<Suc m. g = a + of_nat j then Free else get_state (bitmap p) g)" for g
    unfolding ex using w by (auto simp: p1_def get_state_set_state)
  moreover have "base_frame_no q = base_frame_no p" "n_frames q = n_frames p"
    "info_frame_no q = info_frame_no p"
    by (simp_all add: q_def release_walk_fields p1_def)
  ultimately show ?thesis using that res unfolding a_def p_def by blast
qed

text \<open>
  Where claim C2 holds on the code: when the bitmap entry after the run does not read
  \<open>Used\<close>, so that the walk of \<^verbatim>\<open>release_frames\<close> stops at the end of the run, releasing
  the frame \<^verbatim>\<open>get_frames\<close> has just returned brings the owning pool back to where it was:
  the free count and the state of every frame. The pool is at position \<open>k\<close> of the
  list, no pool before it claims the frame, and its range does not wrap around.
\<close>

lemma release_after_get_frames:
  assumes free: "n_free_frames p > 0" and n: "n \<noteq> 0" and run: "\<exists>s. free_run p s n"
    and res: "get_frames p n = Inr (f, p')"
    and k: "k < length pools" "pools ! k = p'" "\<forall>j<k. \<not> in_range (pools ! j) f"
    and nowrap: "unat (base_frame_no p) + unat (n_frames p) < 2 ^ 32"
    and stop: "get_state (bitmap p) (f - base_frame_no p + n) \<noteq> Used"
  shows "\<exists>q. release_frames pools f = (Released, pools[k := q])
           \<and> n_free_frames q = n_free_frames p
           \<and> (\<forall>g. get_state (bitmap q) g = get_state (bitmap p) g)
           \<and> base_frame_no q = base_frame_no p \<and> n_frames q = n_frames p
           \<and> info_frame_no q = info_frame_no p"
proof -
  obtain r where found: "get_frames_search (bitmap p) (n_frames p) n 0 0 = Some r"
    using search_none_no_run [OF n] run
    by (cases "get_frames_search (bitmap p) (n_frames p) n 0 0") auto
  define s where "s = r - n + 1"
  note sr = search_some_run [OF n found, folded s_def]
  from get_frames_found [OF free n found, folded s_def] res
  have f: "f = s + base_frame_no p"
    and st: "\<And>g. get_state (bitmap p') g =
                  (if g = s then HoS else if s < g \<and> g < s + n then Used
                   else get_state (bitmap p) g)"
    and nf: "n_free_frames p' = n_free_frames p - n"
    and fl: "base_frame_no p' = base_frame_no p" "n_frames p' = n_frames p"
      "info_frame_no p' = info_frame_no p"
    by auto
  have n_pos: "0 < unat n" using n by (simp add: unat_gt_0)
  have bound: "unat s + unat n \<le> unat (n_frames p)" using sr(1,2) by simp
  then have b32: "unat s + unat n < 2 ^ 32" using unat_ulong_less [of "n_frames p"] by simp
  have sn: "unat (s + n) = unat s + unat n" using b32 by (rule unat_add_no_wrap)
  have s1: "unat (s + 1) = unat s + 1" using b32 n_pos by (intro unat_add1_no_wrap) simp
  have a: "f - base_frame_no p' = s" by (simp add: fl f)
  have fb: "unat f = unat s + unat (base_frame_no p)"
    unfolding f using bound nowrap by (intro unat_add_no_wrap) simp
  have "in_range p' f"
    unfolding in_range_def fl
    using fb bound nowrap n_pos unat_add_no_wrap [of "base_frame_no p" "n_frames p"]
    by (simp add: word_le_nat_alt word_less_nat_alt)
  then have fp: "find_pool pools f = Some k" using k by (simp add: find_pool_Some)
  have head: "get_state (bitmap (pools ! k)) (f - base_frame_no (pools ! k)) = HoS"
    unfolding k(2) a by (simp add: st)
  have used: "all_state (bitmap (pools ! k)) Used (f - base_frame_no (pools ! k) + 1) (unat n - 1)"
    unfolding k(2) a
  proof -
    have "unat (s + 1) + (unat n - 1) \<le> 2 ^ 32" using s1 b32 n_pos by simp
    moreover have "get_state (bitmap p') g = Used"
      if "unat (s + 1) \<le> unat g \<and> unat g < unat (s + 1) + (unat n - 1)" for g
    proof -
      have "g \<noteq> s" "s < g" "g < s + n"
        using that s1 sn n_pos by (auto simp: word_less_nat_alt)
      then show ?thesis by (simp add: st)
    qed
    ultimately show "all_state (bitmap p') Used (s + 1) (unat n - 1)"
      by (simp add: all_state_range)
  qed
  have end_eq: "s + 1 + of_nat (unat n - 1) = s + n"
  proof -
    have "(of_nat (unat n - 1) :: ulong) = n - 1" using n_pos by simp
    then show ?thesis by simp
  qed
  have stop': "get_state (bitmap (pools ! k)) (f - base_frame_no (pools ! k) + 1 + of_nat (unat n - 1)) \<noteq> Used"
  proof -
    have "s + n \<noteq> s" "\<not> (s < s + n \<and> s + n < s + n)" using sn n_pos by (auto simp: word_unat_eq_iff)
    then have "get_state (bitmap p') (s + n) = get_state (bitmap p) (s + n)" by (simp add: st)
    then show ?thesis unfolding k(2) a end_eq using stop by (simp add: f)
  qed
  have m: "Suc (unat n - 1) < 2 ^ 32" using n_pos unat_ulong_less [of n] by simp
  obtain q where r: "release_frames pools f = (Released, pools[k := q])"
    and qn: "n_free_frames q = n_free_frames (pools ! k) + 1 + of_nat (unat n - 1)"
    and qs: "\<And>g. get_state (bitmap q) g =
           (if \<exists>j<Suc (unat n - 1). g = f - base_frame_no (pools ! k) + of_nat j then Free
            else get_state (bitmap (pools ! k)) g)"
    and qf: "base_frame_no q = base_frame_no (pools ! k)" "n_frames q = n_frames (pools ! k)"
      "info_frame_no q = info_frame_no (pools ! k)"
    using release_frames_accepted [OF fp head used stop' m] by blast
  have "(of_nat (unat n - 1) :: ulong) = n - 1" using n_pos by simp
  then have "n_free_frames q = n_free_frames p" using qn unfolding k(2) by (simp add: nf)
  moreover have "get_state (bitmap q) g = get_state (bitmap p) g" for g
  proof -
    have sucn: "Suc (unat n - 1) = unat n" using n_pos by simp
    have qs': "get_state (bitmap q) g =
           (if \<exists>j<unat n. g = s + of_nat j then Free else get_state (bitmap p') g)"
      using qs [of g] unfolding k(2) a sucn .
    have in_run: "(\<exists>j<unat n. g = s + of_nat j) \<longleftrightarrow> (unat s \<le> unat g \<and> unat g < unat s + unat n)"
      using word_range_offsets [of s "unat n" g] b32 by simp
    show ?thesis
    proof (cases "\<exists>j<unat n. g = s + of_nat j")
      case True
      then have "get_state (bitmap p) g = Free"
        using sr(3) in_run by (auto simp: free_run_range)
      moreover have "get_state (bitmap q) g = Free"
        unfolding qs' using True by (simp only: if_True)
      ultimately show ?thesis by simp
    next
      case False
      then have out: "\<not> (unat s \<le> unat g \<and> unat g < unat s + unat n)" using in_run by simp
      then have o: "g \<noteq> s" "\<not> (s < g \<and> g < s + n)"
        using sn n_pos by (auto simp: word_less_nat_alt)
      have "get_state (bitmap p') g = get_state (bitmap p) g" by (simp add: st o)
      moreover have "get_state (bitmap q) g = get_state (bitmap p') g"
        unfolding qs' using False by (simp only: if_False)
      ultimately show ?thesis by simp
    qed
  qed
  moreover have "base_frame_no q = base_frame_no p" "n_frames q = n_frames p"
    "info_frame_no q = info_frame_no p"
    using qf unfolding k(2) by (simp_all add: fl)
  ultimately show ?thesis using r by (intro exI [of _ q]) simp
qed

lemma pool8_dirty_get_frames:
  obtains p1 where "get_frames pool8_dirty 7 = Inr (513, p1)"
    and "\<And>g. get_state (bitmap p1) g =
             (if g = 1 then HoS else if 1 < g \<and> g < 8 then Used
              else get_state (bitmap pool8_dirty) g)"
    and "n_free_frames p1 = 0" and "base_frame_no p1 = 512" and "n_frames p1 = 8"
proof -
  have free: "n_free_frames pool8_dirty > 0" by (simp add: pool8_dirty_def)
  have n: "(7::uint) \<noteq> 0" by simp
  have run: "free_run pool8_dirty 1 7"
    by (simp add: free_run_def all_state_numeral pool8_dirty_free) (simp add: pool8_dirty_def)
  have low: "\<forall>s'. s' < 1 \<longrightarrow> \<not> free_run pool8_dirty s' 7"
  proof (intro allI impI)
    fix s' :: ulong assume "s' < 1"
    then have "s' = 0" by unat_arith
    then show "\<not> free_run pool8_dirty s' 7"
      by (simp add: free_run_def all_state_numeral pool8_dirty_states)
  qed
  obtain p1 where r: "get_frames pool8_dirty 7 = Inr (1 + base_frame_no pool8_dirty, p1)"
    and st: "\<And>g. get_state (bitmap p1) g =
                  (if g = 1 then HoS else if 1 < g \<and> g < 1 + 7 then Used
                   else get_state (bitmap pool8_dirty) g)"
    and rest: "n_free_frames p1 = n_free_frames pool8_dirty - 7"
      "base_frame_no p1 = base_frame_no pool8_dirty" "n_frames p1 = n_frames pool8_dirty"
    using get_frames_at [OF free n run low] by blast
  have "get_frames pool8_dirty 7 = Inr (513, p1)" using r by (simp add: pool8_dirty_def)
  moreover have "get_state (bitmap p1) g =
             (if g = 1 then HoS else if 1 < g \<and> g < 8 then Used
              else get_state (bitmap pool8_dirty) g)" for g
    using st [of g] by simp
  moreover have "n_free_frames p1 = 0" "base_frame_no p1 = 512" "n_frames p1 = 8"
    using rest by (simp_all add: pool8_dirty_def)
  ultimately show ?thesis using that by blast
qed

lemma pool8_dirty_cycle:
  obtains p1 p2 where "get_frames pool8_dirty 7 = Inr (513, p1)"
    and "n_free_frames p1 = 0" and "n_frames p1 = 8"
    and "\<And>g. get_state (bitmap p1) g =
             (if g = 1 then HoS else if 1 < g \<and> g < 8 then Used
              else get_state (bitmap pool8_dirty) g)"
    and "release_frames [p1] 513 = (Released, [p2])"
    and "n_free_frames p2 = 11" and "n_frames p2 = 8"
    and "get_state (bitmap p2) 0 = Used"
    and "get_state (bitmap p2) 1 = Free" and "get_state (bitmap p2) 2 = Free"
    and "get_state (bitmap p2) 3 = Free" and "get_state (bitmap p2) 4 = Free"
    and "get_state (bitmap p2) 5 = Free" and "get_state (bitmap p2) 6 = Free"
    and "get_state (bitmap p2) 7 = Free"
proof -
  obtain p1 where g: "get_frames pool8_dirty 7 = Inr (513, p1)"
    and st: "\<And>g. get_state (bitmap p1) g =
             (if g = 1 then HoS else if 1 < g \<and> g < 8 then Used
              else get_state (bitmap pool8_dirty) g)"
    and f1: "n_free_frames p1 = 0" "base_frame_no p1 = 512" "n_frames p1 = 8"
    using pool8_dirty_get_frames by blast
  have found: "find_pool [p1] 513 = Some 0" by (simp add: f1)
  have head: "get_state (bitmap ([p1] ! 0)) (513 - base_frame_no ([p1] ! 0)) = HoS"
    by (simp add: f1 st)
  have used: "all_state (bitmap ([p1] ! 0)) Used (513 - base_frame_no ([p1] ! 0) + 1) 10"
    by (simp add: f1 all_state_numeral st pool8_dirty_states)
  have stop: "get_state (bitmap ([p1] ! 0)) (513 - base_frame_no ([p1] ! 0) + 1 + of_nat 10) \<noteq> Used"
    by (simp add: f1 st pool8_dirty_states)
  obtain p2 where r: "release_frames [p1] 513 = (Released, [p1][0 := p2])"
    and nf: "n_free_frames p2 = n_free_frames ([p1] ! 0) + 1 + of_nat 10"
    and st2: "\<And>g. get_state (bitmap p2) g =
           (if \<exists>j<Suc 10. g = 513 - base_frame_no ([p1] ! 0) + of_nat j then Free
            else get_state (bitmap ([p1] ! 0)) g)"
    and f2: "n_frames p2 = n_frames ([p1] ! 0)"
    using release_frames_accepted [OF found head used stop] by auto
  have in_run: "\<exists>j<Suc 10. (g::ulong) = 513 - base_frame_no ([p1] ! 0) + of_nat j"
    if "g \<in> {1, 2, 3, 4, 5, 6, 7}" for g
  proof -
    have "unat g - 1 < Suc 10 \<and> g = 513 - base_frame_no ([p1] ! 0) + of_nat (unat g - 1)"
      using that by (auto simp: f1)
    then show ?thesis by blast
  qed
  have out_run: "\<not> (\<exists>j<Suc 10. (0::ulong) = 513 - base_frame_no ([p1] ! 0) + of_nat j)"
  proof
    assume "\<exists>j<Suc 10. (0::ulong) = 513 - base_frame_no ([p1] ! 0) + of_nat j"
    then obtain j where j: "j < Suc 10" "(of_nat (Suc j) :: ulong) = 0"
      by (auto simp: f1 add.commute)
    then show False using of_nat_neq_0 [of "Suc j"] by simp
  qed
  have "release_frames [p1] 513 = (Released, [p2])" using r by simp
  moreover have "n_free_frames p2 = 11" using nf by (simp add: f1)
  moreover have "n_frames p2 = 8" using f2 by (simp add: f1)
  moreover have "get_state (bitmap p2) 0 = Used"
    using st2 [of 0] out_run by (simp add: st pool8_dirty_states)
  moreover have "get_state (bitmap p2) g = Free" if "g \<in> {1, 2, 3, 4, 5, 6, 7}" for g
    using st2 [of g] in_run [OF that] by simp
  ultimately show ?thesis using that [OF g f1(1,3) st] by simp
qed

text \<open>
  Claim C2 fails on the code at this input. The pool \<open>pool8_dirty\<close> is what the
  constructor builds; it has 7 free frames. \<^verbatim>\<open>get_frames(7)\<close> hands out the frames 1
  to 7 and returns 513. \<^verbatim>\<open>release_frames(513)\<close> then frees them and walks on past the
  pool's last frame, over the four entries of the next byte, which read \<open>Used\<close>: the
  free count ends at 11, not at 7.
\<close>

theorem release_frames_overrun:
  "new_ContFramePool 4096 ((\<lambda>_. 0)(0x200002 := 0xFF)) [] 512 8 0
     = Inr (pool8_dirty, [pool8_dirty])
   \<and> n_free_frames pool8_dirty = 7
   \<and> (\<exists>p1 p2. get_frames pool8_dirty 7 = Inr (513, p1)
         \<and> release_frames [p1] 513 = (Released, [p2])
         \<and> n_free_frames p2 = 11)"
proof -
  obtain p1 p2 where "get_frames pool8_dirty 7 = Inr (513, p1)"
    "release_frames [p1] 513 = (Released, [p2])" "n_free_frames p2 = 11"
    using pool8_dirty_cycle by blast
  then show ?thesis using new_pool8_dirty by (auto simp: pool8_dirty_def)
qed

section \<open>The runs in use\<close>


lemma in_run_iff: "in_run f (a, n) \<longleftrightarrow> (\<exists>i. i < n \<and> f = a + i)"
proof
  assume "in_run f (a, n)"
  then have "f - a < n \<and> f = a + (f - a)" by (simp add: in_run_def)
  then show "\<exists>i. i < n \<and> f = a + i" by blast
next
  assume "\<exists>i. i < n \<and> f = a + i"
  then show "in_run f (a, n)" by (auto simp: in_run_def)
qed





























lemma get_frames_zero:
  assumes "n_free_frames p > 0" and "0 < n_frames p" and "get_state (bitmap p) 0 \<noteq> Free"
  shows "get_frames p 0
           = Inr (1 + base_frame_no p,
                  p\<lparr>bitmap := set_state (bitmap p) 1 HoS, n_free_frames := n_free_frames p - 1\<rparr>)"
proof -
  have "get_frames_search (bitmap p) (n_frames p) 0 0 0 = Some 0"
    using assms(2,3) by (subst get_frames_search.simps) simp
  moreover have "mark_used q (1 + 1) 1 = q" for q
    by (subst mark_used.simps) simp
  ultimately show ?thesis using assms(1) by (simp add: get_frames_def)
qed

text \<open>
  Why the history asks \<^verbatim>\<open>get_frames\<close> for at least one frame: \<^verbatim>\<open>get_frames(0)\<close> finds
  its run of no frames at index 0 when the first frame is not free, and then makes the
  frame at index 1 a head of sequence whatever its state. In the pool of the frames 0 to
  7, with the frames 0 to 2 in use, it returns 1; \<^verbatim>\<open>release_frames(1)\<close> then frees the
  frames 1 and 2, and \<^verbatim>\<open>get_frames(2)\<close> hands them out while the first run is in use.
\<close>

lemma get_frames_zero_frames:
  "\<exists>p1 p2 p3 p4. get_frames pool8_external 3 = Inr (0, p1)
     \<and> get_frames p1 0 = Inr (1, p2)
     \<and> release_frames [p2] 1 = (Released, [p3])
     \<and> get_frames p3 2 = Inr (1, p4)
     \<and> in_run 1 (0, 3) \<and> in_run 1 (1, 2)"
proof -
  have f0: "n_free_frames pool8_external > 0" by (simp add: pool8_external_def)
  have run0: "free_run pool8_external 0 3"
    by (simp add: free_run_def all_state_numeral pool8_external_def get_state_zero)
  have low0: "\<forall>s'. s' < 0 \<longrightarrow> \<not> free_run pool8_external s' 3" by simp
  have three: "(3::uint) \<noteq> 0" by simp
  obtain p1 where g1: "get_frames pool8_external 3 = Inr (0 + base_frame_no pool8_external, p1)"
    and st1: "\<And>g. get_state (bitmap p1) g =
                  (if g = 0 then HoS else if 0 < g \<and> g < 0 + 3 then Used
                   else get_state (bitmap pool8_external) g)"
    and r1: "n_free_frames p1 = n_free_frames pool8_external - 3"
      "base_frame_no p1 = base_frame_no pool8_external" "n_frames p1 = n_frames pool8_external"
    using get_frames_at [OF f0 three run0 low0] by blast
  have q1: "n_free_frames p1 = 5" "base_frame_no p1 = 0" "n_frames p1 = 8"
    using r1 by (simp_all add: pool8_external_def)
  have s1: "get_state (bitmap p1) 0 = HoS" "get_state (bitmap p1) 1 = Used"
    "get_state (bitmap p1) 2 = Used" "get_state (bitmap p1) 3 = Free"
    by (simp_all add: st1 pool8_external_def get_state_zero)
  define p2 where "p2 = p1\<lparr>bitmap := set_state (bitmap p1) 1 HoS,
                             n_free_frames := n_free_frames p1 - 1\<rparr>"
  have g2: "get_frames p1 0 = Inr (1, p2)"
    using get_frames_zero [of p1] by (simp add: q1 s1 p2_def)
  have q2: "base_frame_no p2 = 0" "n_frames p2 = 8" "n_free_frames p2 = 4"
    by (simp_all add: p2_def q1)
  have s2: "get_state (bitmap p2) 0 = HoS" "get_state (bitmap p2) 1 = HoS"
    "get_state (bitmap p2) 2 = Used" "get_state (bitmap p2) 3 = Free"
    by (simp_all add: p2_def get_state_set_state s1)
  have found: "find_pool [p2] 1 = Some 0" by (simp add: q2)
  have head: "get_state (bitmap ([p2] ! 0)) (1 - base_frame_no ([p2] ! 0)) = HoS"
    by (simp add: q2 s2)
  have used: "all_state (bitmap ([p2] ! 0)) Used (1 - base_frame_no ([p2] ! 0) + 1) 1"
    by (simp add: q2 s2)
  have stop: "get_state (bitmap ([p2] ! 0)) (1 - base_frame_no ([p2] ! 0) + 1 + of_nat 1) \<noteq> Used"
    by (simp add: q2 s2)
  obtain p3 where g3: "release_frames [p2] 1 = (Released, [p2][0 := p3])"
    and r3: "n_free_frames p3 = n_free_frames ([p2] ! 0) + 1 + of_nat 1"
      "base_frame_no p3 = base_frame_no ([p2] ! 0)" "n_frames p3 = n_frames ([p2] ! 0)"
    and st3: "\<And>g. get_state (bitmap p3) g =
           (if \<exists>j<Suc 1. g = 1 - base_frame_no ([p2] ! 0) + of_nat j then Free
            else get_state (bitmap ([p2] ! 0)) g)"
    using release_frames_accepted [OF found head used stop] by auto
  have ex: "(\<exists>j<Suc 1. g = 1 - base_frame_no ([p2] ! 0) + of_nat j) \<longleftrightarrow> g = 1 \<or> g = 2"
    for g :: ulong
    by (auto simp: q2 less_Suc_eq)
  have s3: "get_state (bitmap p3) 0 = HoS" "get_state (bitmap p3) 1 = Free"
    "get_state (bitmap p3) 2 = Free"
    unfolding st3 ex by (simp_all add: s2)
  have q3: "n_free_frames p3 = 6" "base_frame_no p3 = 0" "n_frames p3 = 8"
    using r3 by (simp_all add: q2)
  have f3: "n_free_frames p3 > 0" by (simp add: q3)
  have run3: "free_run p3 1 2" by (simp add: free_run_def all_state_numeral s3 q3)
  have low3: "\<forall>s'. s' < 1 \<longrightarrow> \<not> free_run p3 s' 2"
  proof (intro allI impI)
    fix s' :: ulong assume "s' < 1"
    then have "s' = 0" by unat_arith
    then show "\<not> free_run p3 s' 2" by (simp add: free_run_def all_state_numeral s3)
  qed
  have two: "(2::uint) \<noteq> 0" by simp
  obtain p4 where g4: "get_frames p3 2 = Inr (1 + base_frame_no p3, p4)"
    using get_frames_at [OF f3 two run3 low3] by blast
  have "in_run 1 (0, 3) \<and> in_run 1 (1, 2)" by (simp add: in_run_def)
  then show ?thesis
    using g1 g2 g3 g4 by (simp add: pool8_external_def q3)
qed

text \<open>
  Why the history keeps \<^verbatim>\<open>mark_inaccessible\<close> to free frames. In the pool of the frames 0
  to 7 the frames 0, 1 and 2, 3 are two runs in use. \<^verbatim>\<open>mark_inaccessible(1, 2)\<close> writes over
  the head of the second run, \<^verbatim>\<open>release_frames(1)\<close> then frees the frames 1 to 3, and
  \<^verbatim>\<open>get_frames(3)\<close> hands them out while both runs are in use.
\<close>

lemma mark_inaccessible_over_runs:
  "\<exists>p1 p2 p4 p5. get_frames pool8_external 2 = Inr (0, p1)
     \<and> get_frames p1 2 = Inr (2, p2)
     \<and> release_frames [mark_inaccessible p2 1 2] 1 = (Released, [p4])
     \<and> get_frames p4 3 = Inr (1, p5)
     \<and> in_run 1 (0, 2) \<and> in_run 1 (1, 3) \<and> in_run 2 (2, 2) \<and> in_run 2 (1, 3)"
proof -
  have two: "(2::uint) \<noteq> 0" and three: "(3::uint) \<noteq> 0" by simp_all
  have f0: "n_free_frames pool8_external > 0" by (simp add: pool8_external_def)
  have run0: "free_run pool8_external 0 2"
    by (simp add: free_run_def all_state_numeral pool8_external_def get_state_zero)
  have low0: "\<forall>s'. s' < 0 \<longrightarrow> \<not> free_run pool8_external s' 2" by simp
  obtain p1 where g1: "get_frames pool8_external 2 = Inr (0 + base_frame_no pool8_external, p1)"
    and st1: "\<And>g. get_state (bitmap p1) g =
                  (if g = 0 then HoS else if 0 < g \<and> g < 0 + 2 then Used
                   else get_state (bitmap pool8_external) g)"
    and r1: "n_free_frames p1 = n_free_frames pool8_external - 2"
      "base_frame_no p1 = base_frame_no pool8_external" "n_frames p1 = n_frames pool8_external"
    using get_frames_at [OF f0 two run0 low0] by blast
  have q1: "n_free_frames p1 = 6" "base_frame_no p1 = 0" "n_frames p1 = 8"
    using r1 by (simp_all add: pool8_external_def)
  have s1: "get_state (bitmap p1) 0 = HoS" "get_state (bitmap p1) 1 = Used"
    "get_state (bitmap p1) 2 = Free" "get_state (bitmap p1) 3 = Free"
    "get_state (bitmap p1) 4 = Free"
    by (simp_all add: st1 pool8_external_def get_state_zero)
  have f1: "n_free_frames p1 > 0" by (simp add: q1)
  have run1: "free_run p1 2 2" by (simp add: free_run_def all_state_numeral s1 q1)
  have low1: "\<forall>s'. s' < 2 \<longrightarrow> \<not> free_run p1 s' 2"
  proof (intro allI impI)
    fix s' :: ulong assume "s' < 2"
    then have "s' = 0 \<or> s' = 1" by unat_arith
    then show "\<not> free_run p1 s' 2" by (auto simp: free_run_def all_state_numeral s1)
  qed
  obtain p2 where g2: "get_frames p1 2 = Inr (2 + base_frame_no p1, p2)"
    and st2: "\<And>g. get_state (bitmap p2) g =
                  (if g = 2 then HoS else if 2 < g \<and> g < 2 + 2 then Used
                   else get_state (bitmap p1) g)"
    and r2: "n_free_frames p2 = n_free_frames p1 - 2"
      "base_frame_no p2 = base_frame_no p1" "n_frames p2 = n_frames p1"
    using get_frames_at [OF f1 two run1 low1] by blast
  have s2: "get_state (bitmap p2) 0 = HoS" "get_state (bitmap p2) 1 = Used"
    "get_state (bitmap p2) 2 = HoS" "get_state (bitmap p2) 3 = Used"
    "get_state (bitmap p2) 4 = Free"
    by (simp_all add: st2 s1)
  define p3 where "p3 = mark_inaccessible p2 1 2"
  have q3: "n_free_frames p3 = 2" "base_frame_no p3 = 0" "n_frames p3 = 8"
    by (simp_all add: p3_def mark_inaccessible_n_free mark_inaccessible_fields r2 q1)
  have s3: "get_state (bitmap p3) 0 = HoS" "get_state (bitmap p3) 1 = HoS"
    "get_state (bitmap p3) 2 = Used" "get_state (bitmap p3) 3 = Used"
    "get_state (bitmap p3) 4 = Free"
    by (simp_all add: p3_def mark_inaccessible_state s2 word_le_nat_alt word_less_nat_alt)
  have found: "find_pool [p3] 1 = Some 0" by (simp add: q3)
  have head: "get_state (bitmap ([p3] ! 0)) (1 - base_frame_no ([p3] ! 0)) = HoS"
    by (simp add: q3 s3)
  have used: "all_state (bitmap ([p3] ! 0)) Used (1 - base_frame_no ([p3] ! 0) + 1) 2"
    by (simp add: q3 s3 all_state_numeral)
  have stop: "get_state (bitmap ([p3] ! 0)) (1 - base_frame_no ([p3] ! 0) + 1 + of_nat 2) \<noteq> Used"
    by (simp add: q3 s3)
  obtain p4 where g4: "release_frames [p3] 1 = (Released, [p3][0 := p4])"
    and r4: "n_free_frames p4 = n_free_frames ([p3] ! 0) + 1 + of_nat 2"
      "base_frame_no p4 = base_frame_no ([p3] ! 0)" "n_frames p4 = n_frames ([p3] ! 0)"
    and st4: "\<And>g. get_state (bitmap p4) g =
           (if \<exists>j<Suc 2. g = 1 - base_frame_no ([p3] ! 0) + of_nat j then Free
            else get_state (bitmap ([p3] ! 0)) g)"
    using release_frames_accepted [OF found head used stop] by auto
  have ex: "(\<exists>j<Suc 2. g = 1 - base_frame_no ([p3] ! 0) + of_nat j) \<longleftrightarrow> g = 1 \<or> g = 2 \<or> g = 3"
    for g :: ulong
  proof -
    have "(\<exists>j<Suc 2. P j) \<longleftrightarrow> P 0 \<or> P 1 \<or> P 2" for P :: "nat \<Rightarrow> bool"
      by (auto simp: numeral_2_eq_2 less_Suc_eq)
    then show ?thesis by (simp add: q3)
  qed
  have s4: "get_state (bitmap p4) 0 = HoS" "get_state (bitmap p4) 1 = Free"
    "get_state (bitmap p4) 2 = Free" "get_state (bitmap p4) 3 = Free"
    unfolding st4 ex by (simp_all add: s3)
  have q4: "n_free_frames p4 = 5" "base_frame_no p4 = 0" "n_frames p4 = 8"
    using r4 by (simp_all add: q3)
  have f4: "n_free_frames p4 > 0" by (simp add: q4)
  have run4: "free_run p4 1 3" by (simp add: free_run_def all_state_numeral s4 q4)
  have low4: "\<forall>s'. s' < 1 \<longrightarrow> \<not> free_run p4 s' 3"
  proof (intro allI impI)
    fix s' :: ulong assume "s' < 1"
    then have "s' = 0" by unat_arith
    then show "\<not> free_run p4 s' 3" by (simp add: free_run_def all_state_numeral s4)
  qed
  obtain p5 where g5: "get_frames p4 3 = Inr (1 + base_frame_no p4, p5)"
    using get_frames_at [OF f4 three run4 low4] by blast
  have "in_run 1 (0, 2) \<and> in_run 1 (1, 3) \<and> in_run 2 (2, 2) \<and> in_run 2 (1, 3)"
    by (simp add: in_run_def)
  then show ?thesis
    using g1 g2 g4 g5 by (simp add: pool8_external_def q1 q4 p3_def)
qed

section \<open>The free count and the bitmap\<close>

lemma count_ok_after_marking:
  assumes ok: "count_ok p" and n: "n \<noteq> 0" and run: "free_run p s n"
    and st: "\<And>g. get_state (bitmap p') g =
                  (if g = s then HoS else if s < g \<and> g < s + n then Used
                   else get_state (bitmap p) g)"
    and nf: "n_free_frames p' = n_free_frames p - n" and fr: "n_frames p' = n_frames p"
  shows "count_ok p'"
proof -
  have n_pos: "0 < unat n" using n by (simp add: unat_gt_0)
  have fit: "unat s + unat n \<le> unat (n_frames p)" using run by (simp add: free_run_def)
  then have b32: "unat s + unat n < 2 ^ 32" using unat_ulong_less [of "n_frames p"] by simp
  have sn: "unat (s + n) = unat s + unat n" using b32 by (rule unat_add_no_wrap)
  have blk: "(g = s \<or> (s < g \<and> g < s + n)) \<longleftrightarrow> (unat s \<le> unat g \<and> unat g < unat s + unat n)"
    for g
    using sn n_pos by (auto simp: word_less_nat_alt word_unat_eq_iff)
  have "count_state (bitmap p) Free 0 (unat (n_frames p))
        = count_state (bitmap p') Free 0 (unat (n_frames p)) + unat n"
  proof (rule count_state_block [OF fit])
    show "unat (n_frames p) \<le> 2 ^ 32" using unat_ulong_less [of "n_frames p"] by simp
  next
    fix g :: ulong assume "\<not> (unat s \<le> unat g \<and> unat g < unat s + unat n)"
    then have o: "g \<noteq> s" "\<not> (s < g \<and> g < s + n)" using blk [of g] by auto
    show "get_state (bitmap p') g = get_state (bitmap p) g" by (simp add: st o)
  next
    fix g :: ulong assume "unat s \<le> unat g \<and> unat g < unat s + unat n"
    then show "get_state (bitmap p) g = Free" using run by (auto simp: free_run_range)
  next
    fix g :: ulong assume "unat s \<le> unat g \<and> unat g < unat s + unat n"
    then have "g = s \<or> (s < g \<and> g < s + n)" using blk [of g] by simp
    then show "get_state (bitmap p') g \<noteq> Free" by (auto simp: st)
  qed
  then have c: "free_frames p = free_frames p' + unat n" by (simp add: free_frames_def fr)
  then have "unat n \<le> unat (n_free_frames p)" using ok by (simp add: count_ok_def)
  then have "unat (n_free_frames p - n) = unat (n_free_frames p) - unat n"
    by (simp add: unat_sub word_le_nat_alt)
  then show ?thesis using ok c by (simp add: count_ok_def nf)
qed

text \<open>
  The part of claim C10 that holds on the code. After the constructor the free count
  agrees with the bitmap, unless the pool has no frame at all and keeps its bitmap in its
  own first frame. \<^verbatim>\<open>get_frames(n)\<close> with \<open>n \<ge> 1\<close> keeps the agreement when it finds a
  run. \<^verbatim>\<open>mark_inaccessible(b, n)\<close> with \<open>n \<ge> 1\<close> keeps it when the entries \<open>b\<close> to
  \<open>b + n - 1\<close> of the bitmap, which are the ones it writes, are entries of the pool and
  free. \<^verbatim>\<open>release_frames\<close> keeps it when the entries it frees all belong to the pool.
\<close>

lemma count_ok_new_ContFramePool:
  assumes "new_ContFramePool FRAME_SIZE mem pools b n info = Inr (p, ps)"
    and "info = 0 \<longrightarrow> n \<noteq> 0"
  shows "count_ok p"
proof -
  have le: "n \<le> FRAME_SIZE * 8"
    using assms(1) new_ContFramePool_check [of FRAME_SIZE mem pools b n info]
    by (auto simp: not_less)
  obtain p0 where r: "new_ContFramePool FRAME_SIZE mem pools b n info = Inr (p0, pools @ [p0])"
    and f: "n_frames p0 = n" "n_free_frames p0 = (if info = 0 then n - 1 else n)"
    and st: "\<And>g. get_state (bitmap p0) g =
           (if info = 0 \<and> g = 0 then Used
            else if g < n then Free
            else get_state (\<lambda>k. mem ((if info = 0 then b * FRAME_SIZE else info * FRAME_SIZE) + k)) g)"
    using new_ContFramePool_result [OF le] by blast
  have p: "p = p0" using r assms(1) by simp
  have idx: "unat (of_nat j :: ulong) = j" if "j < unat n" for j
    using that unat_ulong_less [of n] by (simp add: unat_of_nat)
  have lt: "(of_nat j :: ulong) < n" if "j < unat n" for j
    using that idx by (simp add: word_less_nat_alt)
  show ?thesis
  proof (cases "info = 0")
    case False
    have "count_state (bitmap p0) Free 0 (unat n) = unat n"
      by (rule count_state_all) (simp add: st False lt)
    then show ?thesis using False by (simp add: count_ok_def free_frames_def p f)
  next
    case True
    then have n: "n \<noteq> 0" using assms(2) by simp
    then obtain k where k: "unat n = Suc k" by (cases "unat n") (auto simp: unat_eq_0)
    have "count_state (bitmap p0) Free (0 + 1) k = k"
    proof (rule count_state_all)
      fix j assume j: "j < k"
      then have "Suc j < unat n" using k by simp
      from lt [OF this] idx [OF this] have "(of_nat (Suc j) :: ulong) < n" "(of_nat (Suc j) :: ulong) \<noteq> 0"
        by (auto simp: word_unat_eq_iff)
      then show "get_state (bitmap p0) (0 + 1 + of_nat j) = Free"
        by (simp add: st add.commute)
    qed
    then have "count_state (bitmap p0) Free 0 (unat n) = k" by (simp add: k st True)
    moreover have "unat (n - 1) = k" using n k by (simp add: unat_minus_one)
    ultimately show ?thesis using True by (simp add: count_ok_def free_frames_def p f)
  qed
qed

lemma count_ok_get_frames:
  assumes "count_ok p" and "n_free_frames p > 0" and "n \<noteq> 0" and "\<exists>s. free_run p s n"
    and "get_frames p n = Inr (f, p')"
  shows "count_ok p'"
proof -
  obtain r where found: "get_frames_search (bitmap p) (n_frames p) n 0 0 = Some r"
    using search_none_no_run [OF assms(3)] assms(4)
    by (cases "get_frames_search (bitmap p) (n_frames p) n 0 0") auto
  from get_frames_found [OF assms(2,3) found] assms(5)
  have st: "\<And>g. get_state (bitmap p') g =
                  (if g = r - n + 1 then HoS
                   else if r - n + 1 < g \<and> g < r - n + 1 + n then Used
                   else get_state (bitmap p) g)"
    and nf: "n_free_frames p' = n_free_frames p - n" and fr: "n_frames p' = n_frames p"
    by auto
  show ?thesis
    by (rule count_ok_after_marking [OF assms(1,3) search_some_run(3) [OF assms(3) found] st nf fr])
qed

lemma count_ok_mark_inaccessible:
  assumes "count_ok p" and "n \<noteq> 0" and "free_run p b n"
  shows "count_ok (mark_inaccessible p b n)"
proof -
  have n_pos: "0 < unat n" using assms(2) by (simp add: unat_gt_0)
  have "unat b + unat n \<le> unat (n_frames p)" using assms(3) by (simp add: free_run_def)
  then have b32: "unat b + unat n < 2 ^ 32" using unat_ulong_less [of "n_frames p"] by simp
  have bn: "unat (b + n) = unat b + unat n" using b32 by (rule unat_add_no_wrap)
  have b1: "unat (b + 1) = unat b + 1" using b32 n_pos by (intro unat_add1_no_wrap) simp
  have le: "b + 1 \<le> b + n" using bn b1 n_pos by (simp add: word_le_nat_alt)
  have st: "get_state (bitmap (mark_inaccessible p b n)) g =
                  (if g = b then HoS else if b < g \<and> g < b + n then Used
                   else get_state (bitmap p) g)" for g
  proof -
    have "(b + 1 \<le> g \<and> g < b + n) = (g \<noteq> b \<and> b < g \<and> g < b + n)"
      using b1 bn by (auto simp: word_le_nat_alt word_less_nat_alt)
    then show ?thesis by (simp add: mark_inaccessible_state)
  qed
  show ?thesis
    by (rule count_ok_after_marking [OF assms st mark_inaccessible_n_free [OF le]
          mark_inaccessible_fields(2)])
qed

lemma count_ok_release_frames:
  assumes found: "find_pool pools f = Some k"
    and head: "get_state (bitmap (pools ! k)) (f - base_frame_no (pools ! k)) = HoS"
    and used: "all_state (bitmap (pools ! k)) Used (f - base_frame_no (pools ! k) + 1) m"
    and stop: "get_state (bitmap (pools ! k)) (f - base_frame_no (pools ! k) + 1 + of_nat m) \<noteq> Used"
    and fit: "unat (f - base_frame_no (pools ! k)) + Suc m \<le> unat (n_frames (pools ! k))"
    and ok: "count_ok (pools ! k)"
  shows "\<exists>q. release_frames pools f = (Released, pools[k := q]) \<and> count_ok q"
proof -
  define p where "p = pools ! k"
  define a where "a = f - base_frame_no p"
  have b32: "unat a + Suc m < 2 ^ 32"
    using fit unat_ulong_less [of "n_frames p"] by (simp add: a_def p_def)
  then have m: "Suc m < 2 ^ 32" by simp
  obtain q where r: "release_frames pools f = (Released, pools[k := q])"
    and qn: "n_free_frames q = n_free_frames p + 1 + of_nat m"
    and qs: "\<And>g. get_state (bitmap q) g =
           (if \<exists>j<Suc m. g = a + of_nat j then Free else get_state (bitmap p) g)"
    and qf: "n_frames q = n_frames p"
    using release_frames_accepted [OF found head used stop m] unfolding a_def p_def by blast
  have blk: "(\<exists>j<Suc m. g = a + of_nat j) \<longleftrightarrow> (unat a \<le> unat g \<and> unat g < unat a + Suc m)" for g
    using word_range_offsets [of a "Suc m" g] b32 by simp
  have a1: "unat (a + 1) = unat a + 1" using b32 by (intro unat_add1_no_wrap) simp
  have "count_state (bitmap q) Free 0 (unat (n_frames p))
        = count_state (bitmap p) Free 0 (unat (n_frames p)) + Suc m"
  proof (rule count_state_block)
    show "unat a + Suc m \<le> unat (n_frames p)" using fit by (simp add: a_def p_def)
    show "unat (n_frames p) \<le> 2 ^ 32" using unat_ulong_less [of "n_frames p"] by simp
  next
    fix g :: ulong assume o: "\<not> (unat a \<le> unat g \<and> unat g < unat a + Suc m)"
    then have "\<not> (\<exists>j<Suc m. g = a + of_nat j)" using blk [of g] by simp
    then show "get_state (bitmap p) g = get_state (bitmap q) g"
      unfolding qs by (simp only: if_False)
  next
    fix g :: ulong assume i: "unat a \<le> unat g \<and> unat g < unat a + Suc m"
    then have "\<exists>j<Suc m. g = a + of_nat j" using blk [of g] by simp
    then show "get_state (bitmap q) g = Free" unfolding qs by (simp only: if_True)
  next
    fix g :: ulong assume i: "unat a \<le> unat g \<and> unat g < unat a + Suc m"
    show "get_state (bitmap p) g \<noteq> Free"
    proof (cases "g = a")
      case True
      then show ?thesis using head by (simp add: a_def p_def)
    next
      case False
      then have "unat (a + 1) \<le> unat g \<and> unat g < unat (a + 1) + m"
        using i a1 by (auto simp: word_unat_eq_iff)
      moreover have "unat (a + 1) + m \<le> 2 ^ 32" using a1 b32 by simp
      ultimately have "get_state (bitmap p) g = Used"
        using used all_state_range [of "a + 1" m "bitmap p" Used]
        by (simp add: a_def p_def)
      then show ?thesis by simp
    qed
  qed
  then have c: "free_frames q = free_frames p + Suc m" by (simp add: free_frames_def qf)
  have "free_frames q \<le> unat (n_frames q)" by (simp add: free_frames_def count_state_le)
  then have "unat (n_free_frames p) + Suc m < 2 ^ 32"
    using c ok unat_ulong_less [of "n_frames q"] by (simp add: count_ok_def p_def)
  then have "unat (n_free_frames p + of_nat (Suc m)) = unat (n_free_frames p) + Suc m"
    by (rule unat_add_of_nat)
  then have "count_ok q" using c ok by (simp add: count_ok_def qn p_def add.assoc)
  with r show ?thesis by blast
qed

text \<open>
  Claim C10 fails on the code at two inputs. The first is the one of claim C2, by the
  same defect: the free count agrees with the bitmap after the constructor (7 free
  frames) and after \<^verbatim>\<open>get_frames(7)\<close> (none); after \<^verbatim>\<open>release_frames(513)\<close>, which is
  accepted, the pool's eight frames hold 7 free ones and the free count is 11. The second
  is the one of claim C8, by the same defect: the frames 514 and 515 of \<open>pool8\<close> are
  free, and after \<^verbatim>\<open>mark_inaccessible(514, 2)\<close> the pool still holds 7 free frames and the
  free count is 5.
\<close>

theorem free_count_broken:
  "new_ContFramePool 4096 ((\<lambda>_. 0)(0x200002 := 0xFF)) [] 512 8 0
     = Inr (pool8_dirty, [pool8_dirty])
   \<and> count_ok pool8_dirty
   \<and> (\<exists>p1 p2. get_frames pool8_dirty 7 = Inr (513, p1) \<and> count_ok p1
         \<and> release_frames [p1] 513 = (Released, [p2])
         \<and> n_frames p2 = 8 \<and> n_free_frames p2 = 11 \<and> free_frames p2 = 7
         \<and> \<not> count_ok p2)
   \<and> count_ok pool8 \<and> free_run pool8 2 2
   \<and> n_free_frames (mark_inaccessible pool8 514 2) = 5
   \<and> free_frames (mark_inaccessible pool8 514 2) = 7
   \<and> \<not> count_ok (mark_inaccessible pool8 514 2)"
proof -
  obtain p1 p2 where g: "get_frames pool8_dirty 7 = Inr (513, p1)"
    and f1: "n_free_frames p1 = 0" "n_frames p1 = 8"
    and st1: "\<And>g. get_state (bitmap p1) g =
             (if g = 1 then HoS else if 1 < g \<and> g < 8 then Used
              else get_state (bitmap pool8_dirty) g)"
    and r: "release_frames [p1] 513 = (Released, [p2])"
    and f2: "n_free_frames p2 = 11" "n_frames p2 = 8"
    and st2: "get_state (bitmap p2) 0 = Used"
      "get_state (bitmap p2) 1 = Free" "get_state (bitmap p2) 2 = Free"
      "get_state (bitmap p2) 3 = Free" "get_state (bitmap p2) 4 = Free"
      "get_state (bitmap p2) 5 = Free" "get_state (bitmap p2) 6 = Free"
      "get_state (bitmap p2) 7 = Free"
    using pool8_dirty_cycle by blast
  have f0: "n_free_frames pool8_dirty = 7" "n_frames pool8_dirty = 8"
    by (simp_all add: pool8_dirty_def)
  have c0: "count_ok pool8_dirty"
    by (simp add: count_ok_def free_frames_def f0 count_state_numeral pool8_dirty_states
          pool8_dirty_free)
  have c1: "count_ok p1"
    by (simp add: count_ok_def free_frames_def f1 count_state_numeral st1 pool8_dirty_states)
  have c2: "free_frames p2 = 7"
    by (simp add: free_frames_def f2 count_state_numeral st2)
  then have n2: "\<not> count_ok p2" by (simp add: count_ok_def f2)
  have first: "\<exists>p1 p2. get_frames pool8_dirty 7 = Inr (513, p1) \<and> count_ok p1
         \<and> release_frames [p1] 513 = (Released, [p2])
         \<and> n_frames p2 = 8 \<and> n_free_frames p2 = 11 \<and> free_frames p2 = 7
         \<and> \<not> count_ok p2"
    using g c1 r f2 c2 n2 by blast
  have f8: "n_free_frames pool8 = 7" "n_frames pool8 = 8" by (simp_all add: pool8_def)
  have c8: "count_ok pool8"
    by (simp add: count_ok_def free_frames_def f8 count_state_numeral pool8_states)
  have r8: "free_run pool8 2 2"
    by (simp add: free_run_def f8 all_state_numeral pool8_states)
  have m1: "n_free_frames (mark_inaccessible pool8 514 2) = 5"
    by (simp add: mark_inaccessible_n_free f8)
  have same: "get_state (bitmap (mark_inaccessible pool8 514 2)) g = get_state (bitmap pool8) g"
    if "g < 8" for g
  proof -
    have "\<not> (514 + 1 \<le> g \<and> g < 514 + 2)" "g \<noteq> 514" using that by unat_arith+
    then show ?thesis by (simp only: mark_inaccessible_state if_False)
  qed
  have "count_state (bitmap (mark_inaccessible pool8 514 2)) Free 0 8
        = count_state (bitmap pool8) Free 0 8"
  proof (rule count_state_cong)
    fix j :: nat assume "j < 8"
    then have "(0 + of_nat j :: ulong) < 8"
      by (simp add: word_less_nat_alt unat_of_nat)
    then show "get_state (bitmap (mark_inaccessible pool8 514 2)) (0 + of_nat j)
               = get_state (bitmap pool8) (0 + of_nat j)"
      by (rule same)
  qed
  then have m2: "free_frames (mark_inaccessible pool8 514 2) = 7"
    using c8 by (simp add: free_frames_def mark_inaccessible_fields f8 count_ok_def)
  have m3: "\<not> count_ok (mark_inaccessible pool8 514 2)"
    by (simp add: count_ok_def m1 m2)
  show ?thesis using new_pool8_dirty c0 first c8 r8 m1 m2 m3 by blast
qed

section \<open>Properties of the virtual-memory pool\<close>

subsection \<open>\<^verbatim>\<open>is_legitimate\<close>\<close>

text \<open>
  Claim C9, as the code has it. For a pool whose range does not wrap around, that is
  \<open>base_address + size < 2^32\<close>, \<^verbatim>\<open>is_legitimate(a)\<close> is true exactly when
  \<open>base_address \<le> a \<le> base_address + size\<close>; it is true at \<open>base_address\<close> and at
  \<open>base_address + size\<close>, false at \<open>base_address - 1\<close> when \<open>base_address\<close> is not 0, and
  false at \<open>base_address + size + 1\<close> when that is an address below \<open>2^32\<close>.
\<close>

theorem is_legitimate_range:
  assumes "unat (base_address v) + unat (pool_size v) < 2 ^ 32"
  shows "(is_legitimate v a \<longleftrightarrow>
            unat (base_address v) \<le> unat a
            \<and> unat a \<le> unat (base_address v) + unat (pool_size v))
         \<and> is_legitimate v (base_address v)
         \<and> is_legitimate v (base_address v + pool_size v)
         \<and> (base_address v \<noteq> 0 \<longrightarrow> \<not> is_legitimate v (base_address v - 1))
         \<and> (unat (base_address v) + unat (pool_size v) + 1 < 2 ^ 32
              \<longrightarrow> \<not> is_legitimate v (base_address v + pool_size v + 1))"
proof -
  have last: "unat (base_address v + pool_size v) = unat (base_address v) + unat (pool_size v)"
    using assms by (rule unat_add_no_wrap)
  have iff: "is_legitimate v x \<longleftrightarrow>
            unat (base_address v) \<le> unat x
            \<and> unat x \<le> unat (base_address v) + unat (pool_size v)" for x
    by (simp add: is_legitimate_def Let_def word_le_nat_alt last)
  have below: "\<not> is_legitimate v (base_address v - 1)" if "base_address v \<noteq> 0"
  proof -
    have "unat (base_address v - 1) = unat (base_address v) - 1"
      using that by (simp add: unat_minus_one)
    moreover have "0 < unat (base_address v)" using that by (simp add: unat_gt_0)
    ultimately show ?thesis by (simp add: iff)
  qed
  have above: "\<not> is_legitimate v (base_address v + pool_size v + 1)"
    if "unat (base_address v) + unat (pool_size v) + 1 < 2 ^ 32"
  proof -
    have "unat (base_address v + pool_size v + 1) = unat (base_address v) + unat (pool_size v) + 1"
      using that last unat_add1_no_wrap [of "base_address v + pool_size v"] by simp
    then show ?thesis by (simp add: iff)
  qed
  show ?thesis using iff [of a] iff [of "base_address v"] iff [of "base_address v + pool_size v"]
      last below above by simp
qed

theorem is_legitimate_range_witness:
  "is_legitimate (new_VMPool no_regions [] 0x20000000 0x10000000) 0x20000000
   \<and> is_legitimate (new_VMPool no_regions [] 0x20000000 0x10000000) 0x30000000
   \<and> is_legitimate (new_VMPool no_regions [] 0x20000000 0x10000000) 0x28000000
   \<and> \<not> is_legitimate (new_VMPool no_regions [] 0x20000000 0x10000000) 0x1FFFFFFF
   \<and> \<not> is_legitimate (new_VMPool no_regions [] 0x20000000 0x10000000) 0x30000001"
proof -
  define v where "v = new_VMPool no_regions [] 0x20000000 0x10000000"
  have f: "base_address v = 0x20000000" "pool_size v = 0x10000000"
    by (simp_all add: v_def new_VMPool_def)
  have nw: "unat (base_address v) + unat (pool_size v) < 2 ^ 32" by (simp add: f)
  from is_legitimate_range [OF nw, of "0x28000000"] is_legitimate_range [OF nw]
  show ?thesis unfolding v_def [symmetric] by (simp add: f)
qed

text \<open>
  Without the condition the claim fails: for the pool of the last 256 MB of the address
  space \<open>base_address + size\<close> wraps around to 0, and \<^verbatim>\<open>is_legitimate\<close> is false at
  \<open>base_address\<close> itself.
\<close>

theorem is_legitimate_range_counterexample:
  "\<not> is_legitimate (new_VMPool no_regions [] 0xF0000000 0x10000000) 0xF0000000"
  by (simp add: is_legitimate_def new_VMPool_def)

subsection \<open>\<^verbatim>\<open>release\<close>\<close>

lemma release_find_first:
  assumes "i \<le> k" and "k < n" and "region_base_address (r k) = a"
    and "\<forall>j. i \<le> j \<and> j < k \<longrightarrow> region_base_address (r j) \<noteq> a"
  shows "release_find r n a i = k"
  using assms
proof (induction r n a i rule: release_find.induct)
  case (1 r n a i)
  have lt: "i < n" using "1.prems"(1,2) by simp
  show ?case
  proof (cases "region_base_address (r i) = a")
    case True
    then have "\<not> i < k" using "1.prems"(4) by auto
    then have "i = k" using "1.prems"(1) by simp
    then show ?thesis using lt True by (subst release_find.simps) simp
  next
    case False
    then have "i \<noteq> k" using "1.prems"(3) by auto
    then have "i < k" using "1.prems"(1) by simp
    then have le: "i + 1 \<le> k" by (rule inc_le)
    have "\<forall>j. i + 1 \<le> j \<and> j < k \<longrightarrow> region_base_address (r j) \<noteq> a"
    proof (intro allI impI)
      fix j assume "i + 1 \<le> j \<and> j < k"
      moreover from this \<open>i < k\<close> have "i \<le> j" by unat_arith
      ultimately show "region_base_address (r j) \<noteq> a" using "1.prems"(4) by blast
    qed
    from "1.IH" [OF lt False le "1.prems"(2,3) this] lt False
    show ?thesis by (subst release_find.simps) simp
  qed
qed

lemma release_pages_calls:
  "i \<le> n \<Longrightarrow>
   release_pages PAGE_SIZE base n i calls
   = calls @ map (\<lambda>j. Free_page (base + of_nat j * PAGE_SIZE)) [unat i..<unat n]"
proof (induction PAGE_SIZE base n i calls rule: release_pages.induct)
  case (1 PAGE_SIZE base n i calls)
  show ?case
  proof (cases "i < n")
    case True
    then have le: "i + 1 \<le> n" by (rule inc_le)
    have u: "unat (i + 1) = Suc (unat i)" using True by (rule unat_inc)
    have lt: "unat i < unat n" using True by (simp add: word_less_nat_alt)
    have "[unat i..<unat n] = unat i # [Suc (unat i)..<unat n]"
      using lt by (simp add: upt_conv_Cons)
    then show ?thesis
      using "1.IH" [OF True le] True by (subst release_pages.simps) (simp add: u)
  next
    case False
    with "1.prems" have "i = n" by simp
    then show ?thesis by (subst release_pages.simps) simp
  qed
qed

lemma release_shift_table:
  "release_shift r n i j = (if i \<le> j \<and> j < n then r (j + 1) else r j)"
proof (induction r n i rule: release_shift.induct)
  case (1 r n i)
  show ?case
  proof (cases "i < n")
    case True
    define r' where "r' = r(i := r (i + 1))"
    have step: "release_shift r n i = release_shift r' n (i + 1)"
      using True by (subst release_shift.simps) (simp add: r'_def)
    have ih: "release_shift r' n (i + 1) j
              = (if i + 1 \<le> j \<and> j < n then r' (j + 1) else r' j)"
      using "1.IH" [OF True] by (simp only: r'_def)
    have split: "(i \<le> j \<and> j < n) = (j = i \<or> (i + 1 \<le> j \<and> j < n))"
      by (rule range_step [OF True])
    show ?thesis
    proof (cases "i + 1 \<le> j \<and> j < n")
      case inner: True
      then have "j + 1 \<noteq> i" using True by unat_arith
      then have "r' (j + 1) = r (j + 1)" by (simp add: r'_def)
      moreover have "release_shift r n i j = r' (j + 1)"
        unfolding step ih by (simp add: inner)
      moreover have "i \<le> j \<and> j < n" using inner split by simp
      ultimately show ?thesis by simp
    next
      case outer: False
      have val: "release_shift r n i j = r' j"
        unfolding step ih by (simp add: outer)
      show ?thesis
      proof (cases "j = i")
        case True
        then have "r' j = r (j + 1)" by (simp add: r'_def)
        moreover have "i \<le> j \<and> j < n" using True \<open>i < n\<close> by simp
        ultimately show ?thesis using val by simp
      next
        case False
        then have "r' j = r j" by (simp add: r'_def)
        moreover have c: "\<not> (i \<le> j \<and> j < n)" using False outer split by simp
        ultimately show ?thesis using val by (simp add: c)
      qed
    qed
  next
    case False
    then show ?thesis by (subst release_shift.simps) auto
  qed
qed

lemma page_offsets_distinct:
  assumes "(PAGE_SIZE::uint) \<noteq> 0"
  shows "distinct (map (\<lambda>i. a + of_nat i * PAGE_SIZE) [0..<unat (sz div PAGE_SIZE)])"
proof -
  have P: "0 < unat PAGE_SIZE" using assms by (simp add: unat_gt_0)
  have off: "unat (of_nat i * PAGE_SIZE :: ulong) = i * unat PAGE_SIZE"
    if "i < unat (sz div PAGE_SIZE)" for i
  proof -
    have "i < unat sz div unat PAGE_SIZE" using that by (simp add: unat_div)
    then have "i * unat PAGE_SIZE \<le> (unat sz div unat PAGE_SIZE) * unat PAGE_SIZE"
      by simp
    also have "\<dots> \<le> unat sz" by simp
    also have "\<dots> < 2 ^ 32" by (rule unat_ulong_less)
    finally have b: "i * unat PAGE_SIZE < 2 ^ 32" .
    then have "i < 2 ^ 32" using P
      by (metis le_less_trans mult.right_neutral mult_le_mono2 Suc_leI One_nat_def)
    then have "unat (of_nat i :: ulong) = i" by (simp add: unat_of_nat)
    then show ?thesis using b unat_mult_lem [of "of_nat i :: ulong" PAGE_SIZE] by simp
  qed
  have "inj_on (\<lambda>i. a + of_nat i * PAGE_SIZE) {0..<unat (sz div PAGE_SIZE)}"
  proof (rule inj_onI)
    fix i j
    assume i: "i \<in> {0..<unat (sz div PAGE_SIZE)}" and j: "j \<in> {0..<unat (sz div PAGE_SIZE)}"
      and eq: "a + of_nat i * PAGE_SIZE = a + of_nat j * PAGE_SIZE"
    from eq have "(of_nat i * PAGE_SIZE :: ulong) = of_nat j * PAGE_SIZE" by simp
    then have "unat (of_nat i * PAGE_SIZE :: ulong) = unat (of_nat j * PAGE_SIZE :: ulong)"
      by simp
    then have "i * unat PAGE_SIZE = j * unat PAGE_SIZE" using off i j by simp
    then show "i = j" using P by simp
  qed
  then show ?thesis by (simp add: distinct_map)
qed

text \<open>
  Claim C5. When \<open>a\<close> is the base address of a live descriptor, and \<open>k\<close> is the first
  slot that holds it, \<^verbatim>\<open>release(a)\<close> calls \<^verbatim>\<open>free_page\<close> once for each of the
  \<open>size / PAGE_SIZE\<close> pages of that descriptor, at \<open>a + i * PAGE_SIZE\<close> for
  \<open>i = 0, 1, ...\<close> (addresses that differ from one another), moves every descriptor
  after slot \<open>k\<close> one slot down unchanged, takes one off \<^verbatim>\<open>region_iterator\<close>, and
  calls \<^verbatim>\<open>load\<close> last. \<open>PAGE_SIZE\<close> is not 0.
\<close>

theorem release_live_descriptor:
  assumes "k < region_iterator v"
    and "region_base_address (allocated_region v k) = a"
    and "\<forall>j<k. region_base_address (allocated_region v j) \<noteq> a"
    and "PAGE_SIZE \<noteq> 0"
  shows "release PAGE_SIZE v a =
           v\<lparr>allocated_region :=
                (\<lambda>j. if k \<le> j \<and> j < region_iterator v then allocated_region v (j + 1)
                     else allocated_region v j),
              region_iterator := region_iterator v - 1,
              page_table := page_table v
                @ map (\<lambda>i. Free_page (a + of_nat i * PAGE_SIZE))
                    [0..<unat (region_size (allocated_region v k) div PAGE_SIZE)]
                @ [Load_page_table]\<rparr>
         \<and> distinct (map (\<lambda>i. a + of_nat i * PAGE_SIZE)
                    [0..<unat (region_size (allocated_region v k) div PAGE_SIZE)])"
proof -
  have find: "release_find (allocated_region v) (region_iterator v) a 0 = k"
    using assms(1,2,3) by (intro release_find_first) auto
  have pages: "release_pages PAGE_SIZE a (region_size (allocated_region v k) div PAGE_SIZE) 0
                 (page_table v)
               = page_table v @ map (\<lambda>i. Free_page (a + of_nat i * PAGE_SIZE))
                    [0..<unat (region_size (allocated_region v k) div PAGE_SIZE)]"
    by (simp add: release_pages_calls)
  have shift: "release_shift (allocated_region v) (region_iterator v) k
               = (\<lambda>j. if k \<le> j \<and> j < region_iterator v then allocated_region v (j + 1)
                     else allocated_region v j)"
    by (rule ext) (rule release_shift_table)
  show ?thesis
    using page_offsets_distinct [OF assms(4)]
    by (simp add: release_def Let_def find assms(2) pages shift)
qed

subsection \<open>\<^verbatim>\<open>allocate\<close>\<close>

lemma region_update_all:
  "(r::allocated_vm_region)\<lparr>region_base_address := x, region_size := y\<rparr>
   = \<lparr>region_base_address = x, region_size = y\<rparr>"
  by (cases r) simp

lemma allocate_result:
  assumes "s \<noteq> 0" and "region_iterator v \<noteq> MAX_VM_REGIONS"
  shows "allocate PAGE_SIZE MAX_VM_REGIONS v s =
           Inr (next_address v,
                v\<lparr>allocated_region := (allocated_region v)
                     (region_iterator v :=
                        \<lparr>region_base_address = next_address v,
                         region_size = (if s mod PAGE_SIZE > 0 then s div PAGE_SIZE + 1
                                        else s div PAGE_SIZE) * PAGE_SIZE\<rparr>),
                  region_iterator := region_iterator v + 1\<rparr>)"
  using assms by (simp add: allocate_def Let_def next_address_def region_update_all)

lemma round_up_to_pages_cases:
  assumes "0 < P"
  shows "round_up_to_pages P s = (if s mod P > 0 then s div P + 1 else s div P) * P"
proof -
  have "s + P - 1 = s div P * P + (s mod P + P - 1)" using assms by simp
  then have "(s + P - 1) div P = s div P + (s mod P + P - 1) div P"
    using assms by (metis div_mult_self3 less_numeral_extra(3))
  moreover have "(s mod P + P - 1) div P = (if s mod P > 0 then 1 else 0)"
  proof (cases "s mod P > 0")
    case True
    have "s mod P < P" using assms by simp
    with True have "P \<le> s mod P + P - 1" "s mod P + P - 1 < 2 * P" by simp_all
    then have "(s mod P + P - 1) div P = 1"
      by (metis div_nat_eqI mult.commute mult_2_right nat_mult_1_right plus_1_eq_Suc mult_Suc_right)
    with True show ?thesis by simp
  next
    case False
    then show ?thesis using assms by simp
  qed
  ultimately show ?thesis by (simp add: round_up_to_pages_def)
qed

lemma round_up_to_pages_dvd: "P dvd round_up_to_pages P s"
  by (simp add: round_up_to_pages_def)

lemma round_up_to_pages_pos:
  assumes "0 < P" and "0 < s"
  shows "0 < round_up_to_pages P s"
proof -
  have "P \<le> s + P - 1" using assms(2) by simp
  then have "0 < (s + P - 1) div P" using assms(1) by (simp add: div_greater_zero_iff)
  then show ?thesis using assms(1) by (simp add: round_up_to_pages_def)
qed

lemma round_up_to_pages_bounds:
  assumes "0 < P"
  shows "s \<le> round_up_to_pages P s" and "round_up_to_pages P s < s + P"
proof -
  have s: "s div P * P + s mod P = s" by (rule div_mult_mod_eq)
  have m: "s mod P < P" using assms by simp
  have r: "round_up_to_pages P s = (if s mod P > 0 then s div P * P + P else s div P * P)"
    using assms by (simp add: round_up_to_pages_cases)
  show "s \<le> round_up_to_pages P s"
  proof (cases "s mod P > 0")
    case True
    then have "round_up_to_pages P s = s div P * P + P" using r by simp
    then show ?thesis using s m by linarith
  next
    case False
    then have "s mod P = 0" "round_up_to_pages P s = s div P * P" using r by simp_all
    then show ?thesis using s by linarith
  qed
  show "round_up_to_pages P s < s + P"
  proof (cases "s mod P > 0")
    case True
    then have "round_up_to_pages P s = s div P * P + P" using r by simp
    then show ?thesis using s True by linarith
  next
    case False
    then have "s mod P = 0" "round_up_to_pages P s = s div P * P" using r by simp_all
    then show ?thesis using s assms by linarith
  qed
qed

lemma allocate_size_unat:
  assumes "(P::uint) \<noteq> 0" and "round_up_to_pages (unat P) (unat s) < 2 ^ 32"
  shows "unat ((if s mod P > 0 then s div P + 1 else s div P) * P)
         = round_up_to_pages (unat P) (unat s)"
proof -
  have P: "0 < unat P" using assms(1) by (simp add: unat_gt_0)
  define pn where "pn = (if unat s mod unat P > 0 then unat s div unat P + 1 else unat s div unat P)"
  define pw where "pw = (if s mod P > 0 then s div P + 1 else s div P)"
  have ru: "round_up_to_pages (unat P) (unat s) = pn * unat P"
    using P by (simp add: round_up_to_pages_cases pn_def)
  have "pn \<le> pn * unat P" using P by simp
  then have pn_lt: "pn < 2 ^ 32" using assms(2) ru by linarith
  have cond: "(s mod P > 0) = (unat s mod unat P > 0)"
    by (simp add: word_less_nat_alt unat_mod)
  have "unat pw = pn"
  proof (cases "unat s mod unat P > 0")
    case True
    then have "unat (s div P) + 1 < 2 ^ 32" using pn_lt by (simp add: pn_def unat_div)
    then have "unat (s div P + 1) = unat s div unat P + 1"
      using unat_add1_no_wrap [of "s div P"] by (simp add: unat_div)
    then show ?thesis using True cond by (simp add: pw_def pn_def)
  next
    case False
    then show ?thesis using cond by (simp add: pw_def pn_def unat_div)
  qed
  moreover from this have "unat pw * unat P < 2 ^ 32" using assms(2) ru by simp
  ultimately have "unat (pw * P) = pn * unat P"
    using unat_mult_lem [of pw P] by simp
  then show ?thesis by (simp add: ru pw_def)
qed

lemma allocate_all_run:
  assumes "\<forall>s \<in> set ss. s \<noteq> 0"
    and "unat (region_iterator v) + length ss \<le> unat MAX_VM_REGIONS"
    and "PAGE_SIZE \<noteq> 0"
    and "unat (next_address v) + sum_list (map (rounded_size PAGE_SIZE) ss) < 2 ^ 32"
  shows "\<exists>as v'. allocate_all PAGE_SIZE MAX_VM_REGIONS v ss = Inr (as, v')
           \<and> length as = length ss
           \<and> (\<forall>i<length ss. unat (as ! i)
                  = unat (next_address v) + sum_list (map (rounded_size PAGE_SIZE) (take i ss)))"
  using assms
proof (induction ss arbitrary: v)
  case Nil
  then show ?case by simp
next
  case (Cons s ss)
  define k where "k = region_iterator v"
  define szw where "szw = (if s mod PAGE_SIZE > 0 then s div PAGE_SIZE + 1
                           else s div PAGE_SIZE) * PAGE_SIZE"
  define v1 where "v1 = v\<lparr>allocated_region := (allocated_region v)
                     (k := \<lparr>region_base_address = next_address v, region_size = szw\<rparr>),
                  region_iterator := k + 1\<rparr>"
  have s0: "s \<noteq> 0" using Cons.prems(1) by simp
  have k_lt: "unat k < unat MAX_VM_REGIONS" using Cons.prems(2) by (simp add: k_def)
  then have k_ne: "region_iterator v \<noteq> MAX_VM_REGIONS" by (auto simp: k_def)
  have k1: "unat (k + 1) = unat k + 1"
    using k_lt unat_ulong_less [of MAX_VM_REGIONS] by (intro unat_add1_no_wrap) simp
  then have k1_ne: "k + 1 \<noteq> 0" by (metis add_is_0 unat_0 zero_neq_one)
  have al: "allocate PAGE_SIZE MAX_VM_REGIONS v s = Inr (next_address v, v1)"
    unfolding v1_def szw_def k_def by (rule allocate_result [OF s0 k_ne])
  have rs: "rounded_size PAGE_SIZE s < 2 ^ 32" using Cons.prems(4) by simp
  have sz: "unat szw = rounded_size PAGE_SIZE s"
    unfolding szw_def rounded_size_def
    using rs by (intro allocate_size_unat [OF Cons.prems(3)]) (simp add: rounded_size_def)
  have "next_address v1 =
     (if region_iterator v1 = 0 then base_address v1
      else region_base_address (allocated_region v1 (region_iterator v1 - 1))
           + region_size (allocated_region v1 (region_iterator v1 - 1)))"
    by (rule next_address_def)
  then have "next_address v1 = next_address v + szw"
    using k1_ne by (simp add: v1_def)
  moreover have "unat (next_address v) + unat szw < 2 ^ 32" using Cons.prems(4) sz by simp
  ultimately have nx: "unat (next_address v1) = unat (next_address v) + rounded_size PAGE_SIZE s"
    using unat_add_no_wrap [of "next_address v" szw] sz by simp
  have p1: "\<forall>s \<in> set ss. s \<noteq> 0" using Cons.prems(1) by simp
  have p2: "unat (region_iterator v1) + length ss \<le> unat MAX_VM_REGIONS"
    using Cons.prems(2) k1 by (simp add: v1_def k_def)
  have p4: "unat (next_address v1) + sum_list (map (rounded_size PAGE_SIZE) ss) < 2 ^ 32"
    using Cons.prems(4) nx by simp
  from Cons.IH [OF p1 p2 Cons.prems(3) p4]
  obtain as v' where r: "allocate_all PAGE_SIZE MAX_VM_REGIONS v1 ss = Inr (as, v')"
    and len: "length as = length ss"
    and ad: "\<forall>i<length ss. unat (as ! i)
                  = unat (next_address v1) + sum_list (map (rounded_size PAGE_SIZE) (take i ss))"
    by blast
  have "allocate_all PAGE_SIZE MAX_VM_REGIONS v (s # ss) = Inr (next_address v # as, v')"
    using al r by simp
  moreover have "length (next_address v # as) = length (s # ss)" using len by simp
  moreover have "unat ((next_address v # as) ! i)
                  = unat (next_address v)
                    + sum_list (map (rounded_size PAGE_SIZE) (take i (s # ss)))"
    if "i < length (s # ss)" for i
  proof (cases i)
    case 0
    then show ?thesis by simp
  next
    case (Suc j)
    then have "j < length ss" using that by simp
    then show ?thesis using ad nx Suc by simp
  qed
  ultimately show ?case by blast
qed

lemma dvd_sum_list_map:
  "(\<And>x. x \<in> set xs \<Longrightarrow> (d::nat) dvd f x) \<Longrightarrow> d dvd sum_list (map f xs)"
  by (induction xs) simp_all

lemma sum_take_Suc:
  "i < length xs \<Longrightarrow>
   sum_list (map f (take (Suc i) xs)) = sum_list (map f (take i xs)) + (f (xs ! i) :: nat)"
  by (simp add: take_Suc_conv_app_nth)

lemma sum_take_mono:
  "i \<le> j \<Longrightarrow> sum_list (map f (take i xs)) \<le> (sum_list (map f (take j xs)) :: nat)"
proof (induction xs arbitrary: i j)
  case Nil
  then show ?case by simp
next
  case (Cons x xs)
  show ?case
  proof (cases i)
    case 0
    then show ?thesis by simp
  next
    case (Suc i')
    with Cons.prems obtain j' where "j = Suc j'" "i' \<le> j'" by (cases j) auto
    then show ?thesis using Cons.IH [of i' j'] Suc by simp
  qed
qed

text \<open>
  Claim C4, as the code has it. \<^verbatim>\<open>allocate(0)\<close> is fatal. For \<open>s > 0\<close> and a region
  table below capacity, \<^verbatim>\<open>allocate(s)\<close> returns \<open>next_address\<close>, that is
  \<^verbatim>\<open>_base_address\<close> for the first region and the previous region's base plus its size
  otherwise, records it as the base of the new descriptor with the size \<open>s\<close> rounded up to
  whole pages (as long as that is below \<open>2^32\<close>), adds one to the count and leaves the
  other descriptors alone. Successive calls with sizes above 0 that stay within the
  table and whose regions end below \<open>2^32\<close> all succeed; each returns the address where
  the region before it ends, so the addresses are strictly increasing and the regions do
  not overlap, and all are page-aligned when the first of them is.
\<close>

theorem allocate_regions:
  "allocate PAGE_SIZE MAX_VM_REGIONS v 0 = Inl Assertion_failed
   \<and> (s \<noteq> 0 \<and> region_iterator v < MAX_VM_REGIONS \<and> PAGE_SIZE \<noteq> 0 \<longrightarrow>
        (\<exists>v'. allocate PAGE_SIZE MAX_VM_REGIONS v s = Inr (next_address v, v')
            \<and> region_iterator v' = region_iterator v + 1
            \<and> region_base_address (allocated_region v' (region_iterator v)) = next_address v
            \<and> (rounded_size PAGE_SIZE s < 2 ^ 32 \<longrightarrow>
                 unat (region_size (allocated_region v' (region_iterator v)))
                 = rounded_size PAGE_SIZE s)
            \<and> unat PAGE_SIZE dvd rounded_size PAGE_SIZE s
            \<and> unat s \<le> rounded_size PAGE_SIZE s
            \<and> rounded_size PAGE_SIZE s < unat s + unat PAGE_SIZE
            \<and> (\<forall>j. j \<noteq> region_iterator v \<longrightarrow> allocated_region v' j = allocated_region v j)
            \<and> base_address v' = base_address v \<and> pool_size v' = pool_size v
            \<and> page_table v' = page_table v))
   \<and> ((\<forall>s \<in> set ss. s \<noteq> 0)
        \<and> unat (region_iterator v) + length ss \<le> unat MAX_VM_REGIONS \<and> PAGE_SIZE \<noteq> 0
        \<and> unat (next_address v) + sum_list (map (rounded_size PAGE_SIZE) ss) < 2 ^ 32 \<longrightarrow>
        (\<exists>as v'. allocate_all PAGE_SIZE MAX_VM_REGIONS v ss = Inr (as, v')
            \<and> length as = length ss
            \<and> (\<forall>i<length ss. unat (as ! i)
                  = unat (next_address v) + sum_list (map (rounded_size PAGE_SIZE) (take i ss)))
            \<and> (\<forall>i j. i < j \<and> j < length ss \<longrightarrow>
                  as ! i < as ! j
                  \<and> unat (as ! i) + rounded_size PAGE_SIZE (ss ! i) \<le> unat (as ! j))
            \<and> (unat PAGE_SIZE dvd unat (next_address v) \<longrightarrow>
                  (\<forall>a \<in> set as. unat PAGE_SIZE dvd unat a))))"
proof (intro conjI impI)
  show "allocate PAGE_SIZE MAX_VM_REGIONS v 0 = Inl Assertion_failed"
    by (simp add: allocate_def)
next
  assume a: "s \<noteq> 0 \<and> region_iterator v < MAX_VM_REGIONS \<and> PAGE_SIZE \<noteq> 0"
  then have s0: "s \<noteq> 0" and ne: "region_iterator v \<noteq> MAX_VM_REGIONS" and P: "0 < unat PAGE_SIZE"
    by (auto simp: unat_gt_0)
  define v' where "v' = v\<lparr>allocated_region := (allocated_region v)
                     (region_iterator v :=
                        \<lparr>region_base_address = next_address v,
                         region_size = (if s mod PAGE_SIZE > 0 then s div PAGE_SIZE + 1
                                        else s div PAGE_SIZE) * PAGE_SIZE\<rparr>),
                  region_iterator := region_iterator v + 1\<rparr>"
  have "allocate PAGE_SIZE MAX_VM_REGIONS v s = Inr (next_address v, v')"
    unfolding v'_def by (rule allocate_result [OF s0 ne])
  moreover have "rounded_size PAGE_SIZE s < 2 ^ 32 \<longrightarrow>
                 unat (region_size (allocated_region v' (region_iterator v)))
                 = rounded_size PAGE_SIZE s"
    using a allocate_size_unat [of PAGE_SIZE s] by (simp add: v'_def rounded_size_def)
  moreover have "unat PAGE_SIZE dvd rounded_size PAGE_SIZE s"
    "unat s \<le> rounded_size PAGE_SIZE s"
    "rounded_size PAGE_SIZE s < unat s + unat PAGE_SIZE"
    unfolding rounded_size_def
    using round_up_to_pages_dvd round_up_to_pages_bounds [OF P] by simp_all
  ultimately show "\<exists>v'. allocate PAGE_SIZE MAX_VM_REGIONS v s = Inr (next_address v, v')
            \<and> region_iterator v' = region_iterator v + 1
            \<and> region_base_address (allocated_region v' (region_iterator v)) = next_address v
            \<and> (rounded_size PAGE_SIZE s < 2 ^ 32 \<longrightarrow>
                 unat (region_size (allocated_region v' (region_iterator v)))
                 = rounded_size PAGE_SIZE s)
            \<and> unat PAGE_SIZE dvd rounded_size PAGE_SIZE s
            \<and> unat s \<le> rounded_size PAGE_SIZE s
            \<and> rounded_size PAGE_SIZE s < unat s + unat PAGE_SIZE
            \<and> (\<forall>j. j \<noteq> region_iterator v \<longrightarrow> allocated_region v' j = allocated_region v j)
            \<and> base_address v' = base_address v \<and> pool_size v' = pool_size v
            \<and> page_table v' = page_table v"
    by (intro exI [of _ v']) (simp add: v'_def)
next
  assume a: "(\<forall>s \<in> set ss. s \<noteq> 0)
        \<and> unat (region_iterator v) + length ss \<le> unat MAX_VM_REGIONS \<and> PAGE_SIZE \<noteq> 0
        \<and> unat (next_address v) + sum_list (map (rounded_size PAGE_SIZE) ss) < 2 ^ 32"
  then have nz: "\<forall>s \<in> set ss. s \<noteq> 0" and P: "0 < unat PAGE_SIZE" by (auto simp: unat_gt_0)
  from a allocate_all_run [of ss v MAX_VM_REGIONS PAGE_SIZE]
  obtain as v' where r: "allocate_all PAGE_SIZE MAX_VM_REGIONS v ss = Inr (as, v')"
    and len: "length as = length ss"
    and ad: "\<forall>i<length ss. unat (as ! i)
                  = unat (next_address v) + sum_list (map (rounded_size PAGE_SIZE) (take i ss))"
    by blast
  have ord: "as ! i < as ! j \<and> unat (as ! i) + rounded_size PAGE_SIZE (ss ! i) \<le> unat (as ! j)"
    if "i < j \<and> j < length ss" for i j
  proof -
    have i: "i < length ss" using that by simp
    have "ss ! i \<noteq> 0" using nz i by simp
    then have pos: "0 < rounded_size PAGE_SIZE (ss ! i)"
      unfolding rounded_size_def by (intro round_up_to_pages_pos [OF P]) (simp add: unat_gt_0)
    have "sum_list (map (rounded_size PAGE_SIZE) (take (Suc i) ss))
          \<le> sum_list (map (rounded_size PAGE_SIZE) (take j ss))"
      using that by (intro sum_take_mono) simp
    then have "unat (as ! i) + rounded_size PAGE_SIZE (ss ! i) \<le> unat (as ! j)"
      using ad i that by (simp add: sum_take_Suc)
    then show ?thesis using pos by (simp add: word_less_nat_alt)
  qed
  have al: "\<forall>a \<in> set as. unat PAGE_SIZE dvd unat a" if "unat PAGE_SIZE dvd unat (next_address v)"
  proof
    fix a assume "a \<in> set as"
    then obtain i where i: "i < length ss" "a = as ! i" using len by (auto simp: in_set_conv_nth)
    have "unat PAGE_SIZE dvd sum_list (map (rounded_size PAGE_SIZE) (take i ss))"
      by (rule dvd_sum_list_map) (simp add: rounded_size_def round_up_to_pages_dvd)
    then show "unat PAGE_SIZE dvd unat a" using that ad i by simp
  qed
  show "\<exists>as v'. allocate_all PAGE_SIZE MAX_VM_REGIONS v ss = Inr (as, v')
            \<and> length as = length ss
            \<and> (\<forall>i<length ss. unat (as ! i)
                  = unat (next_address v) + sum_list (map (rounded_size PAGE_SIZE) (take i ss)))
            \<and> (\<forall>i j. i < j \<and> j < length ss \<longrightarrow>
                  as ! i < as ! j
                  \<and> unat (as ! i) + rounded_size PAGE_SIZE (ss ! i) \<le> unat (as ! j))
            \<and> (unat PAGE_SIZE dvd unat (next_address v) \<longrightarrow>
                  (\<forall>a \<in> set as. unat PAGE_SIZE dvd unat a))"
    using r len ad ord al by (intro exI [of _ as] exI [of _ v']) blast
qed

theorem allocate_regions_witness:
  "allocate 4096 512 pool3 0 = Inl Assertion_failed
   \<and> (\<exists>v'. allocate 4096 512 pool3 5000 = Inr (0x20000000, v')
          \<and> region_iterator v' = 1
          \<and> allocated_region v' 0 = \<lparr>region_base_address = 0x20000000, region_size = 8192\<rparr>)
   \<and> (\<exists>as v'. allocate_all 4096 512 pool3 [5000, 1] = Inr (as, v')
          \<and> as = [0x20000000, 0x20002000])"
proof -
  have f: "region_iterator pool3 = 0" "next_address pool3 = 0x20000000"
    by (simp_all add: pool3_def new_VMPool_def next_address_def)
  have rs: "rounded_size 4096 5000 = 8192" "rounded_size 4096 1 = 4096"
    by (simp_all add: rounded_size_def round_up_to_pages_def)
  note t = allocate_regions [of 4096 512 pool3 5000 "[5000, 1]"]
  have t1: "allocate 4096 512 pool3 0 = Inl Assertion_failed" by (rule t [THEN conjunct1])
  have h2: "(5000::ulong) \<noteq> 0 \<and> region_iterator pool3 < 512 \<and> (4096::uint) \<noteq> 0"
    by (simp add: f)
  have h3: "(\<forall>s \<in> set [5000, 1::ulong]. s \<noteq> 0)
        \<and> unat (region_iterator pool3) + length [5000, 1::ulong] \<le> unat (512::uint)
        \<and> (4096::uint) \<noteq> 0
        \<and> unat (next_address pool3) + sum_list (map (rounded_size 4096) [5000, 1]) < 2 ^ 32"
    by (simp add: f rs)
  from t [THEN conjunct2, THEN conjunct1, THEN mp, OF h2]
  obtain v' where a: "allocate 4096 512 pool3 5000 = Inr (next_address pool3, v')"
    and b: "region_iterator v' = region_iterator pool3 + 1"
    and c: "region_base_address (allocated_region v' (region_iterator pool3)) = next_address pool3"
    and d: "rounded_size 4096 5000 < 2 ^ 32 \<longrightarrow>
                 unat (region_size (allocated_region v' (region_iterator pool3)))
                 = rounded_size 4096 5000"
    by blast
  have v': "allocate 4096 512 pool3 5000 = Inr (0x20000000, v')"
    "region_iterator v' = 1" "region_base_address (allocated_region v' 0) = 0x20000000"
    "unat (region_size (allocated_region v' 0)) = 8192"
    using a b c d by (simp_all add: f rs)
  from v'(4) have "region_size (allocated_region v' 0) = 8192"
    by (simp add: word_unat_eq_iff)
  with v'(3) have t2: "allocated_region v' 0
       = \<lparr>region_base_address = 0x20000000, region_size = 8192\<rparr>"
    by (cases "allocated_region v' 0") simp
  from t [THEN conjunct2, THEN conjunct2, THEN mp, OF h3]
  obtain as v'' where r: "allocate_all 4096 512 pool3 [5000, 1] = Inr (as, v'')"
    and len: "length as = length [5000, 1 :: ulong]"
    and ad: "\<forall>i<length [5000, 1 :: ulong]. unat (as ! i)
                  = unat (next_address pool3)
                    + sum_list (map (rounded_size 4096) (take i [5000, 1]))"
    by blast
  have "unat (as ! 0) = 0x20000000" using ad [rule_format, of 0] by (simp add: f)
  moreover have "unat (as ! 1) = 0x20002000" using ad [rule_format, of 1] by (simp add: f rs)
  ultimately have "as ! 0 = 0x20000000" "as ! 1 = 0x20002000"
    by (simp_all add: word_unat_eq_iff)
  with len have "as = [0x20000000, 0x20002000]"
    by (cases as; cases "tl as") auto
  with r t1 v' t2 show ?thesis by blast
qed

text \<open>
  Without the conditions the claim fails in two places. A pool whose base address is not
  a multiple of the page size returns that address as it is. And \<^verbatim>\<open>allocate\<close> never
  compares with the end of the pool or of the address space: in a pool at 2 GB, after a
  region of 2 GB the next region's address wraps around to 0, below the first.
\<close>

theorem allocate_regions_counterexample:
  "map_sum id fst (allocate 4096 512 (new_VMPool no_regions [] 0x20000001 0x3000) 4096)
     = Inr 0x20000001
   \<and> \<not> (4096::nat) dvd unat (0x20000001::ulong)
   \<and> map_sum id fst
        (allocate_all 4096 512 (new_VMPool no_regions [] 0x80000000 0x80000000)
           [0x80000000, 0x1000])
     = Inr [0x80000000, 0]"
  by (simp add: allocate_def Let_def new_VMPool_def no_regions_def)

subsection \<open>The example of two regions\<close>

lemma allocate_pool3_two:
  "allocate_all 4096 512 pool3 [0x1000, 0x1000] = Inr ([0x20000000, 0x20001000], pool3_two)"
  by (simp add: allocate_def Let_def pool3_def new_VMPool_def pool3_two_def region_update_all)

theorem release_live_descriptor_witness:
  "allocate_all 4096 512 pool3 [0x1000, 0x1000] = Inr ([0x20000000, 0x20001000], pool3_two)
   \<and> region_iterator (release 4096 pool3_two 0x20000000) = 1
   \<and> allocated_region (release 4096 pool3_two 0x20000000) 0
       = \<lparr>region_base_address = 0x20001000, region_size = 0x1000\<rparr>
   \<and> page_table (release 4096 pool3_two 0x20000000)
       = [Register_pool, Free_page 0x20000000, Load_page_table]"
proof -
  have h: "(0::uint) < region_iterator pool3_two"
    "region_base_address (allocated_region pool3_two 0) = 0x20000000"
    "\<forall>j<(0::uint). region_base_address (allocated_region pool3_two j) \<noteq> 0x20000000"
    "(4096::uint) \<noteq> 0"
    by (simp_all add: pool3_two_def)
  have n: "unat (region_size (allocated_region pool3_two 0) div 4096) = 1"
    by (simp add: pool3_two_def)
  from release_live_descriptor [OF h, THEN conjunct1] allocate_pool3_two
  show ?thesis by (simp add: n) (simp add: pool3_two_def)
qed

end
